theory Spec2Isabelle
  imports Main "HOL-Library.Word" "HOL-Library.List_Lexorder" "HOL-Library.Sublist"
begin

section \<open>The Axon blob store (synapse/axon.py)\<close>

text \<open>
  A shallow embedding of the blob engine, the upload manager, the hash-lock registry and
  the URL fetcher of \<^verbatim>\<open>synapse/axon.py\<close>. Coroutines are run to completion one at a
  time: every \<^verbatim>\<open>await asyncio.sleep(0)\<close> is a no-op here, and the \<^verbatim>\<open>asyncio.Lock\<close> of a
  hash-lock entry is always free when it is taken. Exceptions are values \<open>Inl e\<close>.
\<close>

subsection \<open>Bytes and Python's integer conversions\<close>

type_synonym byte = "8 word"
type_synonym bytes = "byte list"

datatype exc =
    HitLimit
  | NoSuchFile
  | IsFini
  | OverflowError
  | ValueError
  | CancelledError
  | OtherError string

text \<open>\<^verbatim>\<open>n.to_bytes(k, 'big')\<close>: the \<open>k\<close> big-endian bytes of \<open>n\<close>, most significant first;
  Python raises \<^verbatim>\<open>OverflowError\<close> when \<open>n\<close> does not fit.\<close>

fun be_bytes :: "nat \<Rightarrow> nat \<Rightarrow> bytes" where
  "be_bytes 0 n = []"
| "be_bytes (Suc k) n = of_nat (n div 256 ^ k) # be_bytes k (n mod 256 ^ k)"

definition to_bytes :: "nat \<Rightarrow> nat \<Rightarrow> exc + bytes" where
  "to_bytes n k = (if n < 256 ^ k then Inr (be_bytes k n) else Inl OverflowError)"

text \<open>\<^verbatim>\<open>int.from_bytes(byts, 'big')\<close>.\<close>

definition from_bytes :: "bytes \<Rightarrow> nat" where
  "from_bytes byts = foldl (\<lambda>acc b. acc * 256 + unat b) 0 byts"

text \<open>Python's truth value of \<^verbatim>\<open>not byts\<close> for a value that is \<^verbatim>\<open>None\<close> or a bytes
  object: a bytes object is false exactly when it is empty, whatever its bytes are.\<close>

definition py_not :: "bytes option \<Rightarrow> bool" where
  "py_not byts = (case byts of None \<Rightarrow> True | Some b \<Rightarrow> b = [])"

subsection \<open>The key-value tables\<close>

text \<open>
  Modelled from the spec: \<^verbatim>\<open>synapse.lib.lmdbslab.Slab\<close> is not among the sources. A named
  table of the key-value store is an association list kept in ascending order of its keys
  (bytewise lexicographic, as the B-tree orders them), one entry per key. \<open>scanByPref\<close>
  yields the entries whose key starts with the prefix, in ascending key order.
\<close>

type_synonym slabdb = "(bytes \<times> bytes) list"

definition slab_get :: "bytes \<Rightarrow> slabdb \<Rightarrow> bytes option" where
  "slab_get k db = map_of db k"

definition slab_has :: "bytes \<Rightarrow> slabdb \<Rightarrow> bool" where
  "slab_has k db = (map_of db k \<noteq> None)"

fun slab_put :: "bytes \<Rightarrow> bytes \<Rightarrow> slabdb \<Rightarrow> slabdb" where
  "slab_put k v [] = [(k, v)]"
| "slab_put k v ((k', v') # db) =
     (if k < k' then (k, v) # (k', v') # db
      else if k = k' then (k, v) # db
      else (k', v') # slab_put k v db)"

definition slab_delete :: "bytes \<Rightarrow> slabdb \<Rightarrow> slabdb" where
  "slab_delete k db = filter (\<lambda>(k', v). k' \<noteq> k) db"

definition slab_pop :: "bytes \<Rightarrow> slabdb \<Rightarrow> bytes option \<times> slabdb" where
  "slab_pop k db = (slab_get k db, slab_delete k db)"

definition scanByPref :: "bytes \<Rightarrow> slabdb \<Rightarrow> slabdb" where
  "scanByPref pref db = filter (\<lambda>(k, v). prefix pref k) db"

definition scanKeysByPref :: "bytes \<Rightarrow> slabdb \<Rightarrow> bytes list" where
  "scanKeysByPref pref db = map fst (scanByPref pref db)"

text \<open>The representation invariant of a table: keys strictly ascending.\<close>

definition slab_ok :: "slabdb \<Rightarrow> bool" where
  "slab_ok db = sorted_wrt (<) (map fst db)"

subsection \<open>The state of an Axon\<close>

text \<open>
  The fields set up by \<^verbatim>\<open>Axon.__anit__\<close>. \<open>axonseqn\<close> and \<open>axonhist\<close> are modelled from the
  spec (\<^verbatim>\<open>synapse.lib.slabseqn.SlabSeqn\<close> and \<^verbatim>\<open>synapse.lib.lmdbslab.Hist\<close> are not among
  the sources): the sequence is an append-only log whose offsets are the positions
  \<open>0, 1, 2, \<dots>\<close>, the history a log of entries stamped with the clock \<open>now\<close>.
  \<open>file_count\<close> and \<open>size_bytes\<close> are the two entries of the \<^verbatim>\<open>axonmetrics\<close> dictionary.
  \<open>hashlocks\<close> maps a digest to the reference count of its \<^verbatim>\<open>[count, lock]\<close> item.
\<close>

record axon =
  sizes :: slabdb
  blobs :: slabdb
  axonseqn :: "(bytes \<times> nat) list"
  axonhist :: "(nat \<times> bytes \<times> nat) list"
  file_count :: int
  size_bytes :: int
  hashlocks :: "bytes \<rightharpoonup> nat"
  maxbytes :: "int option"
  maxcount :: "int option"
  now :: nat

definition axon_anit :: "int option \<Rightarrow> int option \<Rightarrow> nat \<Rightarrow> axon" where
  "axon_anit mb mc t =
     \<lparr>sizes = [], blobs = [], axonseqn = [], axonhist = [], file_count = 0, size_bytes = 0,
      hashlocks = Map.empty, maxbytes = mb, maxcount = mc, now = t\<rparr>"

subsection \<open>The hash-lock registry and the capacity check\<close>

text \<open>
  \<^verbatim>\<open>holdHashLock\<close> is a generator-based context manager without \<^verbatim>\<open>try/finally\<close>: when the
  guarded body raises, the exception is thrown into the generator at its \<^verbatim>\<open>yield\<close>, the
  inner \<^verbatim>\<open>async with\<close> releases the lock, and the statements after it do not run. When
  the body finishes (also by \<^verbatim>\<open>return\<close>) the generator is resumed and they do. The guarded
  bodies of this file never touch the registry, so the count of the item is read back
  from it.
\<close>

definition holdHashLock ::
  "axon \<Rightarrow> bytes \<Rightarrow> (axon \<Rightarrow> (exc + 'a) \<times> axon) \<Rightarrow> (exc + 'a) \<times> axon" where
  "holdHashLock s hashbyts body =
     (let item = (case hashlocks s hashbyts of None \<Rightarrow> 0 | Some c \<Rightarrow> c);
          s1 = s\<lparr>hashlocks := (hashlocks s)(hashbyts \<mapsto> item + 1)\<rparr>
      in case body s1 of
           (Inl e, s2) \<Rightarrow> (Inl e, s2)
         | (Inr v, s2) \<Rightarrow>
             (Inr v,
              s2\<lparr>hashlocks :=
                    (case hashlocks s2 hashbyts of
                       None \<Rightarrow> hashlocks s2
                     | Some c \<Rightarrow>
                         if c - 1 = 0 then (hashlocks s2)(hashbyts := None)
                         else (hashlocks s2)(hashbyts \<mapsto> c - 1))\<rparr>))"

definition reqBelowLimit :: "axon \<Rightarrow> exc option" where
  "reqBelowLimit s =
     (if (case maxbytes s of None \<Rightarrow> False | Some mb \<Rightarrow> mb \<le> size_bytes s) then Some HitLimit
      else if (case maxcount s of None \<Rightarrow> False | Some mc \<Rightarrow> mc \<le> file_count s)
      then Some HitLimit
      else None)"

subsection \<open>The blob engine\<close>

definition addSyncItem :: "bytes \<times> nat \<Rightarrow> axon \<Rightarrow> axon" where
  "addSyncItem item s =
     s\<lparr>axonhist := axonhist s @ [(now s, item)], axonseqn := axonseqn s @ [item]\<rparr>"

definition has :: "axon \<Rightarrow> bytes \<Rightarrow> bool" where
  "has s sha = (slab_get sha (sizes s) \<noteq> None)"

definition size_axon :: "axon \<Rightarrow> bytes \<Rightarrow> nat option" where
  "size_axon s sha =
     (case slab_get sha (sizes s) of None \<Rightarrow> None | Some byts \<Rightarrow> Some (from_bytes byts))"

text \<open>\<^verbatim>\<open>get\<close> is a generator; its value here is the list of the chunks it yields.\<close>

definition get :: "axon \<Rightarrow> bytes \<Rightarrow> exc + bytes list" where
  "get s sha =
     (if \<not> has s sha then Inl NoSuchFile
      else Inr (map snd (scanByPref sha (blobs s))))"

text \<open>A byte producer: the chunks it yields, then either the end of the iteration
  (\<open>None\<close>) or the exception it raises.\<close>

type_synonym genr = "bytes list \<times> exc option"

fun saveFileGenr_loop ::
  "bytes \<Rightarrow> exc option \<Rightarrow> nat \<Rightarrow> nat \<Rightarrow> bytes list \<Rightarrow> slabdb \<Rightarrow> (exc + nat) \<times> slabdb" where
  "saveFileGenr_loop sha fin i sz [] db =
     (case fin of None \<Rightarrow> (Inr sz, db) | Some e \<Rightarrow> (Inl e, db))"
| "saveFileGenr_loop sha fin i sz (byts # rest) db =
     (case to_bytes i 8 of
        Inl e \<Rightarrow> (Inl e, db)
      | Inr ib \<Rightarrow>
          saveFileGenr_loop sha fin (Suc i) (sz + length byts) rest
            (slab_put (sha @ ib) byts db))"

definition saveFileGenr :: "axon \<Rightarrow> bytes \<Rightarrow> genr \<Rightarrow> (exc + nat) \<times> axon" where
  "saveFileGenr s sha g =
     (case saveFileGenr_loop sha (snd g) 0 0 (fst g) (blobs s) of
        (r, db) \<Rightarrow> (r, s\<lparr>blobs := db\<rparr>))"

definition save :: "axon \<Rightarrow> bytes \<Rightarrow> genr \<Rightarrow> (exc + nat) \<times> axon" where
  "save s sha g =
     (case reqBelowLimit s of
        Some e \<Rightarrow> (Inl e, s)
      | None \<Rightarrow>
          holdHashLock s sha (\<lambda>s.
            case slab_get sha (sizes s) of
              Some byts \<Rightarrow> (Inr (from_bytes byts), s)
            | None \<Rightarrow>
                (case saveFileGenr s sha g of
                   (Inl e, s1) \<Rightarrow> (Inl e, s1)
                 | (Inr sz, s1) \<Rightarrow>
                     (let s2 = addSyncItem (sha, sz) s1;
                          s3 = s2\<lparr>file_count := file_count s2 + 1\<rparr>;
                          s4 = s3\<lparr>size_bytes := size_bytes s3 + int sz\<rparr>
                      in case to_bytes sz 8 of
                           Inl e \<Rightarrow> (Inl e, s4)
                         | Inr v \<Rightarrow> (Inr sz, s4\<lparr>sizes := slab_put sha v (sizes s4)\<rparr>)))))"

definition delBlobByts :: "axon \<Rightarrow> bytes \<Rightarrow> axon" where
  "delBlobByts s sha =
     s\<lparr>blobs := foldl (\<lambda>db lkey. slab_delete lkey db) (blobs s)
                  (scanKeysByPref sha (blobs s))\<rparr>"

definition del_axon :: "axon \<Rightarrow> bytes \<Rightarrow> (exc + bool) \<times> axon" where
  "del_axon s sha =
     holdHashLock s sha (\<lambda>s.
       case slab_pop sha (sizes s) of
         (byts, db) \<Rightarrow>
           (let s1 = s\<lparr>sizes := db\<rparr>
            in if py_not byts then (Inr False, s1)
               else (let sz = from_bytes (the byts);
                         s2 = s1\<lparr>file_count := file_count s1 - 1\<rparr>;
                         s3 = s2\<lparr>size_bytes := size_bytes s2 - int sz\<rparr>
                     in (Inr True, delBlobByts s3 sha))))"

fun dels :: "axon \<Rightarrow> bytes list \<Rightarrow> (exc + bool list) \<times> axon" where
  "dels s [] = (Inr [], s)"
| "dels s (sha # shas) =
     (case del_axon s sha of
        (Inl e, s1) \<Rightarrow> (Inl e, s1)
      | (Inr r, s1) \<Rightarrow>
          (case dels s1 shas of
             (Inl e, s2) \<Rightarrow> (Inl e, s2)
           | (Inr rs, s2) \<Rightarrow> (Inr (r # rs), s2)))"

definition wants :: "axon \<Rightarrow> bytes list \<Rightarrow> bytes list" where
  "wants s shas = filter (\<lambda>sha. \<not> has s sha) shas"

text \<open>Modelled from the spec: \<^verbatim>\<open>SlabSeqn.iter(offs)\<close> is not among the sources; it yields
  the entries of the sequence from offset \<open>offs\<close> on, each with its offset.\<close>

definition seqn_iter :: "nat \<Rightarrow> 'a list \<Rightarrow> (nat \<times> 'a) list" where
  "seqn_iter offs xs = drop offs (zip [0..<length xs] xs)"

definition hashes :: "axon \<Rightarrow> nat \<Rightarrow> (nat \<times> bytes \<times> nat) list" where
  "hashes s offs =
     filter (\<lambda>item. slab_has (fst (snd item)) (sizes s)) (seqn_iter offs (axonseqn s))"

subsection \<open>The upload manager\<close>

text \<open>
  \<open>up_sha256\<close> holds the bytes fed to the \<^verbatim>\<open>hashlib.sha256()\<close> object since its creation;
  its \<^verbatim>\<open>digest()\<close> is the hash function \<open>H\<close> (a parameter: \<^verbatim>\<open>hashlib\<close> is a library)
  applied to them. \<open>up_fd\<close> is the content of the spooled file.
\<close>

record upload =
  up_fd :: bytes
  up_size :: nat
  up_sha256 :: bytes
  up_isfini :: bool

text \<open>Modelled from the spec: \<^verbatim>\<open>synapse.lib.const.mebibyte\<close> is not among the sources;
  the spec gives the chunk size as 16 MiB.\<close>

definition mebibyte :: nat where
  "mebibyte = 1024 * 1024"

definition CHUNK_SIZE :: nat where
  "CHUNK_SIZE = 16 * mebibyte"

definition UpLoad_anit :: upload where
  "UpLoad_anit = \<lparr>up_fd = [], up_size = 0, up_sha256 = [], up_isfini = False\<rparr>"

definition UpLoad_reset :: "upload \<Rightarrow> upload" where
  "UpLoad_reset u = u\<lparr>up_fd := [], up_size := 0, up_sha256 := []\<rparr>"

definition UpLoad_write :: "upload \<Rightarrow> bytes \<Rightarrow> upload" where
  "UpLoad_write u byts =
     u\<lparr>up_size := up_size u + length byts,
       up_sha256 := up_sha256 u @ byts,
       up_fd := up_fd u @ byts\<rparr>"

text \<open>The loop of \<^verbatim>\<open>genr\<close>: \<^verbatim>\<open>fd.read(n)\<close> until it returns no bytes.\<close>

fun read_chunks :: "nat \<Rightarrow> bytes \<Rightarrow> bytes list" where
  "read_chunks n byts =
     (if take n byts = [] then [] else take n byts # read_chunks n (drop n byts))"

text \<open>
  \<^verbatim>\<open>genr\<close> starts with \<^verbatim>\<open>self.fd.seek(0)\<close>. An upload that is finished has had its file
  closed by \<^verbatim>\<open>_uploadFini\<close>, so the seek raises \<^verbatim>\<open>ValueError\<close> before the test of
  \<^verbatim>\<open>isfini\<close> is reached; with one coroutine at a time a live upload stays live while its
  chunks are read, and \<^verbatim>\<open>IsFini\<close> is not raised.
\<close>

definition UpLoad_genr :: "upload \<Rightarrow> genr" where
  "UpLoad_genr u =
     (if up_isfini u then ([], Some ValueError) else (read_chunks CHUNK_SIZE (up_fd u), None))"

definition UpLoad_save ::
  "(bytes \<Rightarrow> bytes) \<Rightarrow> axon \<Rightarrow> upload \<Rightarrow> (exc + nat \<times> bytes) \<times> axon \<times> upload" where
  "UpLoad_save H s u =
     (let sha = H (up_sha256 u);
          rsize = up_size u
      in if has s sha then (Inr (rsize, sha), s, UpLoad_reset u)
         else (case save s sha (UpLoad_genr u) of
                 (Inl e, s1) \<Rightarrow> (Inl e, s1, u)
               | (Inr sz, s1) \<Rightarrow> (Inr (rsize, sha), s1, UpLoad_reset u)))"

definition put :: "(bytes \<Rightarrow> bytes) \<Rightarrow> axon \<Rightarrow> bytes \<Rightarrow> (exc + nat \<times> bytes) \<times> axon" where
  "put H s byts =
     (case UpLoad_save H s (UpLoad_write UpLoad_anit byts) of (r, s1, u) \<Rightarrow> (r, s1))"

fun puts ::
  "(bytes \<Rightarrow> bytes) \<Rightarrow> axon \<Rightarrow> bytes list \<Rightarrow> (exc + (nat \<times> bytes) list) \<times> axon" where
  "puts H s [] = (Inr [], s)"
| "puts H s (b # files) =
     (case put H s b of
        (Inl e, s1) \<Rightarrow> (Inl e, s1)
      | (Inr r, s1) \<Rightarrow>
          (case puts H s1 files of
             (Inl e, s2) \<Rightarrow> (Inl e, s2)
           | (Inr rs, s2) \<Rightarrow> (Inr (r # rs), s2)))"

subsection \<open>The URL fetcher\<close>

text \<open>
  The four hash functions of \<^verbatim>\<open>hashlib\<close> are parameters. Modelled from the spec:
  \<^verbatim>\<open>synapse.lib.hashset.HashSet\<close>, \<^verbatim>\<open>synapse.common.ehex\<close> and \<^verbatim>\<open>synapse.common.excinfo\<close>
  are not among the sources. A hash set accumulates the bytes it is fed and its digests
  are their MD5, SHA-1, SHA-256 and SHA-512; \<open>ehex\<close> is lowercase hexadecimal; the message
  of an exception is a parameter \<open>mesg_of\<close>.
\<close>

record hashfuns =
  h_md5 :: "bytes \<Rightarrow> bytes"
  h_sha1 :: "bytes \<Rightarrow> bytes"
  h_sha256 :: "bytes \<Rightarrow> bytes"
  h_sha512 :: "bytes \<Rightarrow> bytes"

definition hashset_update :: "bytes \<Rightarrow> bytes \<Rightarrow> bytes" where
  "hashset_update hs byts = hs @ byts"

definition hashset_digests :: "hashfuns \<Rightarrow> bytes \<Rightarrow> (string \<times> bytes) list" where
  "hashset_digests hf hs =
     [(''md5'', h_md5 hf hs), (''sha1'', h_sha1 hf hs),
      (''sha256'', h_sha256 hf hs), (''sha512'', h_sha512 hf hs)]"

definition hexdigit :: "nat \<Rightarrow> char" where
  "hexdigit n = ''0123456789abcdef'' ! n"

definition ehex :: "bytes \<Rightarrow> string" where
  "ehex byts = concat (map (\<lambda>b. [hexdigit (unat b div 16), hexdigit (unat b mod 16)]) byts)"

text \<open>
  What the network does is an input: the request raises, or a response arrives with its
  final URL, status code and headers, and \<^verbatim>\<open>iter_chunked\<close> delivers body chunks and then
  either ends or raises.
\<close>

datatype http_exchange =
    RequestRaises exc
  | Response string int "(string \<times> string) list" "bytes list" "exc option"

text \<open>The two shapes of the dictionary \<^verbatim>\<open>wget\<close> returns: \<^verbatim>\<open>ok\<close>, \<^verbatim>\<open>url\<close>, \<^verbatim>\<open>code\<close>,
  \<^verbatim>\<open>headers\<close>, \<^verbatim>\<open>size\<close>, \<^verbatim>\<open>hashes\<close>, or \<^verbatim>\<open>ok\<close> and \<^verbatim>\<open>mesg\<close>.\<close>

datatype wget_info =
    InfoOk string int "(string \<times> string) list" nat "(string \<times> string) list"
  | InfoErr string

fun ok :: "wget_info \<Rightarrow> bool" where
  "ok (InfoOk url code headers sz hs) = True"
| "ok (InfoErr mesg) = False"

text \<open>The body of the \<^verbatim>\<open>try\<close> block.\<close>

definition wget_try ::
  "hashfuns \<Rightarrow> axon \<Rightarrow> http_exchange \<Rightarrow> (exc + wget_info) \<times> axon" where
  "wget_try hf s xchg =
     (case xchg of
        RequestRaises e \<Rightarrow> (Inl e, s)
      | Response url code headers chunks fin \<Rightarrow>
          (let upload = foldl UpLoad_write UpLoad_anit chunks;
               hashset = foldl hashset_update [] chunks
           in case fin of
                Some e \<Rightarrow> (Inl e, s)
              | None \<Rightarrow>
                  (case UpLoad_save (h_sha256 hf) s upload of
                     (Inl e, s1, u) \<Rightarrow> (Inl e, s1)
                   | (Inr (sz, sha), s1, u) \<Rightarrow>
                       (Inr (InfoOk url code headers sz
                               (map (\<lambda>(n, h). (n, ehex h)) (hashset_digests hf hashset))),
                        s1))))"

definition wget ::
  "hashfuns \<Rightarrow> (exc \<Rightarrow> string) \<Rightarrow> axon \<Rightarrow> http_exchange \<Rightarrow> (exc + wget_info) \<times> axon" where
  "wget hf mesg_of s xchg =
     (case wget_try hf s xchg of
        (Inr info, s1) \<Rightarrow> (Inr info, s1)
      | (Inl e, s1) \<Rightarrow>
          if e = CancelledError then (Inl CancelledError, s1)
          else (Inr (InfoErr (mesg_of e)), s1))"

subsection \<open>Well-formed stores\<close>

text \<open>
  The condition on a state that the operations establish and keep: both tables are
  ordered by key, every size-index value is the eight bytes \<^verbatim>\<open>save\<close> writes, and no
  registry item has the count zero (an item is removed when its count gets there).
\<close>

definition axon_ok :: "axon \<Rightarrow> bool" where
  "axon_ok s =
     (slab_ok (sizes s) \<and> slab_ok (blobs s) \<and>
      (\<forall>kv \<in> set (sizes s). length (snd kv) = 8) \<and>
      (\<forall>sha. hashlocks s sha \<noteq> Some 0))"

text \<open>The counters agree with the size-index.\<close>

definition metrics_ok :: "axon \<Rightarrow> bool" where
  "metrics_ok s =
     (file_count s = int (length (sizes s)) \<and>
      size_bytes s = int (sum_list (map (\<lambda>kv. from_bytes (snd kv)) (sizes s))))"

text \<open>The chunk table after the chunks \<open>cs\<close> have been written under the digest \<open>sha\<close>
  at the ordinals \<open>i, i + 1, \<dots>\<close>.\<close>

fun put_chunks :: "bytes \<Rightarrow> nat \<Rightarrow> bytes list \<Rightarrow> slabdb \<Rightarrow> slabdb" where
  "put_chunks sha i [] db = db"
| "put_chunks sha i (c # cs) db = put_chunks sha (Suc i) cs (slab_put (sha @ be_bytes 8 i) c db)"

text \<open>The entries these writes make: the key of chunk \<open>j\<close> is the digest followed by
  the eight big-endian bytes of \<open>j\<close>.\<close>

definition chunk_entries :: "bytes \<Rightarrow> nat \<Rightarrow> bytes list \<Rightarrow> slabdb" where
  "chunk_entries sha i cs = zip (map (\<lambda>j. sha @ be_bytes 8 j) [i..<i + length cs]) cs"

text \<open>Every chunk stored under the digest lies at one of the first \<open>n\<close> ordinals: what an
  interrupted upload of at most \<open>n\<close> chunks leaves behind, and nothing when \<open>n = 0\<close>.\<close>

definition chunks_within :: "axon \<Rightarrow> bytes \<Rightarrow> nat \<Rightarrow> bool" where
  "chunks_within s sha n =
     (\<forall>kv \<in> set (scanByPref sha (blobs s)). \<exists>j < n. fst kv = sha @ be_bytes 8 j)"

text \<open>The blob \<open>byts\<close> is stored under the digest \<open>sha\<close> the way \<^verbatim>\<open>put\<close> stores it.\<close>

definition blob_stored :: "axon \<Rightarrow> bytes \<Rightarrow> bytes \<Rightarrow> bool" where
  "blob_stored s sha byts =
     (slab_get sha (sizes s) = Some (be_bytes 8 (length byts)) \<and>
      map snd (scanByPref sha (blobs s)) = read_chunks CHUNK_SIZE byts)"

text \<open>
  On the blobs \<open>U\<close> the hash function has no collision and gives 32 bytes, and each blob
  is shorter than \<open>2^64\<close> bytes.
\<close>

definition hash_ok :: "(bytes \<Rightarrow> bytes) \<Rightarrow> bytes set \<Rightarrow> bool" where
  "hash_ok H U = (inj_on H U \<and> (\<forall>B \<in> U. length (H B) = 32 \<and> length B < 2 ^ 64))"

text \<open>
  A store of uploads of the blobs \<open>U\<close>: it is well-formed, every size-index entry is the
  digest of a blob of \<open>U\<close> that is stored under it, and every chunk is a chunk of a blob
  of \<open>U\<close>, under the digest of that blob and at its own ordinal. The empty store is one;
  \<^verbatim>\<open>put\<close>, \<^verbatim>\<open>del_\<close> and an upload that is interrupted keep it one. A \<^verbatim>\<open>save\<close> whose
  producer does not yield the chunks of the blob the digest belongs to leaves it.
\<close>

definition store_of :: "(bytes \<Rightarrow> bytes) \<Rightarrow> bytes set \<Rightarrow> axon \<Rightarrow> bool" where
  "store_of H U s =
     (axon_ok s \<and>
      (\<forall>kv \<in> set (sizes s). \<exists>B \<in> U. fst kv = H B \<and> blob_stored s (H B) B) \<and>
      (\<forall>kv \<in> set (blobs s). \<exists>B \<in> U. \<exists>j < length (read_chunks CHUNK_SIZE B).
          kv = (H B @ be_bytes 8 j, read_chunks CHUNK_SIZE B ! j)))"

subsection \<open>Example stores\<close>

text \<open>
  The theorems below hold for every hash function \<open>H\<close>. The examples run the operations
  with a stand-in that pads or cuts its input to 32 bytes.
\<close>

definition toy_hash :: "bytes \<Rightarrow> bytes" where
  "toy_hash byts = take 32 (byts @ replicate 32 0)"

text \<open>Stand-ins for the four hash functions and for the message of an exception.\<close>

definition toy_hashfuns :: hashfuns where
  "toy_hashfuns = \<lparr>h_md5 = toy_hash, h_sha1 = toy_hash, h_sha256 = toy_hash, h_sha512 = toy_hash\<rparr>"

fun toy_mesg :: "exc \<Rightarrow> string" where
  "toy_mesg HitLimit = ''Axon is at file:count limit''"
| "toy_mesg e = ''error''"

text \<open>A store limited to one file, after \<^verbatim>\<open>put(b"abc")\<close>.\<close>

definition ex_abc :: axon where
  "ex_abc = snd (put toy_hash (axon_anit None (Some 1) 0) [97, 98, 99])"

text \<open>A store after \<^verbatim>\<open>put(b"")\<close>.\<close>

definition ex_zero :: axon where
  "ex_zero = snd (put toy_hash (axon_anit None None 0) [])"

text \<open>A store after a \<^verbatim>\<open>save\<close> under the digest of the one-byte blob \<open>[9]\<close> whose
  producer yielded the chunks \<open>[9]\<close> and \<open>[3]\<close> and was then cancelled.\<close>

definition ex_orphan :: axon where
  "ex_orphan =
     snd (save (axon_anit None None 0) (toy_hash [9]) ([[9], [3]], Some CancelledError))"

text \<open>A store after two blobs were put and the first was deleted.\<close>

definition ex_deleted :: axon where
  "ex_deleted =
     snd (del_axon
       (snd (put toy_hash (snd (put toy_hash (axon_anit None None 0) [1])) [2]))
       (toy_hash [1]))"

section \<open>Properties\<close>

subsection \<open>Byte encodings\<close>

lemma length_be_bytes [simp]: "length (be_bytes k n) = k"
  by (induction k arbitrary: n) auto

lemma from_bytes_Nil [simp]: "from_bytes [] = 0"
  by (simp add: from_bytes_def)

lemma foldl_be_acc:
  "foldl (\<lambda>acc b. acc * 256 + unat b) a (bs::bytes) = a * 256 ^ length bs + foldl (\<lambda>acc b. acc * 256 + unat b) 0 bs"
proof (induction bs arbitrary: a)
  case Nil
  then show ?case by simp
next
  case (Cons b bs)
  show ?case
    using Cons.IH [of "a * 256 + unat b"] Cons.IH [of "unat b"] by (simp add: algebra_simps)
qed

lemma from_bytes_Cons: "from_bytes (b # bs) = unat b * 256 ^ length bs + from_bytes bs"
  unfolding from_bytes_def using foldl_be_acc [of "unat b" bs] by simp

lemma unat_of_nat_byte: "n < 256 \<Longrightarrow> unat (of_nat n :: byte) = n"
  by (simp add: unat_of_nat)

lemma from_bytes_be_bytes: "n < 256 ^ k \<Longrightarrow> from_bytes (be_bytes k n) = n"
proof (induction k arbitrary: n)
  case 0
  then show ?case by simp
next
  case (Suc k)
  have "n div 256 ^ k < 256" using Suc.prems
    by (simp add: less_mult_imp_div_less mult.commute)
  then show ?case
    using Suc.IH [of "n mod 256 ^ k"] div_mult_mod_eq [of n "256 ^ k"]
    by (simp add: from_bytes_Cons unat_of_nat_byte)
qed

lemma be_bytes_mono:
  "m < n \<Longrightarrow> n < 256 ^ k \<Longrightarrow> be_bytes k m < be_bytes k n"
proof (induction k arbitrary: m n)
  case 0
  then show ?case by simp
next
  case (Suc k)
  have hn: "n div 256 ^ k < 256" using Suc.prems
    by (simp add: less_mult_imp_div_less mult.commute)
  have hm: "m div 256 ^ k \<le> n div 256 ^ k" using Suc.prems(1)
    by (simp add: div_le_mono)
  show ?case
  proof (cases "m div 256 ^ k = n div 256 ^ k")
    case True
    have "m mod 256 ^ k < n mod 256 ^ k"
      using True Suc.prems(1) by (metis div_mult_mod_eq nat_add_left_cancel_less)
    then have "be_bytes k (m mod 256 ^ k) < be_bytes k (n mod 256 ^ k)"
      by (intro Suc.IH) simp_all
    then show ?thesis using True by simp
  next
    case False
    then have lt: "m div 256 ^ k < n div 256 ^ k" using hm by simp
    have "(of_nat (m div 256 ^ k) :: byte) < of_nat (n div 256 ^ k)"
      using lt hn by (simp add: word_less_nat_alt unat_of_nat_byte)
    then show ?thesis by simp
  qed
qed

lemma append_less_append [simp]: "(d @ a < d @ b) = (a < (b :: bytes))"
  by (induction d) auto

lemma map_of_slab_put: "map_of (slab_put k v db) = (map_of db)(k \<mapsto> v)"
  by (induction db) (auto simp: fun_eq_iff)

lemma slab_ok_Cons:
  "slab_ok ((k, v) # db) = ((\<forall>kv \<in> set db. k < fst kv) \<and> slab_ok db)"
  by (auto simp: slab_ok_def)

lemma set_slab_put:
  "slab_ok db \<Longrightarrow> set (slab_put k v db) = insert (k, v) {kv \<in> set db. fst kv \<noteq> k}"
proof (induction db)
  case Nil
  then show ?case by simp
next
  case (Cons a db)
  obtain k' v' where a: "a = (k', v')" by (cases a)
  have ok: "slab_ok db" and lt: "\<forall>kv \<in> set db. k' < fst kv"
    using Cons.prems by (simp_all add: a slab_ok_Cons)
  consider "k < k'" | "k = k'" | "k' < k" using less_linear by blast
  then show ?case
  proof cases
    case 1
    then have "\<forall>kv \<in> set db. fst kv \<noteq> k" using lt by fastforce
    with 1 show ?thesis by (auto simp: a)
  next
    case 2
    then have "\<forall>kv \<in> set db. fst kv \<noteq> k" using lt by fastforce
    with 2 show ?thesis by (auto simp: a)
  next
    case 3
    then show ?thesis using Cons.IH [OF ok] by (auto simp: a)
  qed
qed

lemma slab_ok_slab_put: "slab_ok db \<Longrightarrow> slab_ok (slab_put k v db)"
proof (induction db)
  case Nil
  then show ?case by (simp add: slab_ok_def)
next
  case (Cons a db)
  obtain k' v' where a: "a = (k', v')" by (cases a)
  have ok: "slab_ok db" and lt: "\<forall>kv \<in> set db. k' < fst kv"
    using Cons.prems by (simp_all add: a slab_ok_Cons)
  consider "k < k'" | "k = k'" | "k' < k" using less_linear by blast
  then show ?case
  proof cases
    case 1
    then have "\<forall>kv \<in> set db. k < fst kv" using lt by fastforce
    with 1 ok lt show ?thesis by (simp add: a slab_ok_Cons)
  next
    case 2
    with ok lt show ?thesis by (simp add: a slab_ok_Cons)
  next
    case 3
    then show ?thesis using Cons.IH [OF ok] lt ok
      by (auto simp: a slab_ok_Cons set_slab_put)
  qed
qed

subsection \<open>Tables\<close>

lemma map_of_slab_delete: "map_of (slab_delete k db) = (map_of db)(k := None)"
  by (induction db) (auto simp: slab_delete_def fun_eq_iff)

lemma slab_ok_filter: "slab_ok db \<Longrightarrow> slab_ok (filter P db)"
  by (induction db) (auto simp: slab_ok_Cons) 

lemma slab_ok_slab_delete: "slab_ok db \<Longrightarrow> slab_ok (slab_delete k db)"
  by (simp add: slab_delete_def slab_ok_filter)

lemma map_of_None_keys: "(map_of db k = None) = (\<forall>kv \<in> set db. fst kv \<noteq> k)"
  by (induction db) auto

lemma slab_delete_absent: "map_of db k = None \<Longrightarrow> slab_delete k db = db"
  by (induction db) (auto simp: slab_delete_def)

lemma length_slab_put_new: "map_of db k = None \<Longrightarrow> length (slab_put k v db) = Suc (length db)"
  by (induction db) (auto split: if_splits)

lemma sum_slab_put_new:
  "map_of db k = None \<Longrightarrow> sum_list (map f (slab_put k v db)) = (f (k, v) :: nat) + sum_list (map f db)"
  by (induction db) (auto split: if_splits)

lemma slab_delete_present:
  assumes "slab_ok db" "map_of db k = Some v"
  shows "Suc (length (slab_delete k db)) = length db"
    and "sum_list (map f (slab_delete k db)) + (f (k, v) :: nat) = sum_list (map f db)"
  using assms
proof (induction db)
  case Nil
  { case 1 then show ?case by simp }
  { case 2 then show ?case by simp }
next
  case (Cons a db)
  obtain k' v' where a: "a = (k', v')" by (cases a)
  { case 1
    show ?case
    proof (cases "k' = k")
      case True
      have "\<forall>kv \<in> set db. fst kv \<noteq> k" using 1(1) True by (fastforce simp: a slab_ok_Cons)
      then have "slab_delete k db = db" by (simp add: slab_delete_absent map_of_None_keys)
      then show ?thesis using True by (simp add: a slab_delete_def)
    next
      case False
      then show ?thesis using Cons.IH(1) 1 by (simp add: a slab_delete_def slab_ok_Cons)
    qed }
  { case 2
    show ?case
    proof (cases "k' = k")
      case True
      have "\<forall>kv \<in> set db. fst kv \<noteq> k" using 2(1) True by (fastforce simp: a slab_ok_Cons)
      then have "slab_delete k db = db" by (simp add: slab_delete_absent map_of_None_keys)
      then show ?thesis using True 2(2) by (simp add: a slab_delete_def)
    next
      case False
      then show ?thesis using Cons.IH(2) 2 by (simp add: a slab_delete_def slab_ok_Cons)
    qed }
qed

lemma slab_ok_distinct: "slab_ok db \<Longrightarrow> sorted (map fst db) \<and> distinct (map fst db)"
  by (simp add: slab_ok_def strict_sorted_iff)

lemma slab_eqI:
  assumes "slab_ok xs" "slab_ok ys" "set xs = set ys"
  shows "xs = ys"
proof -
  have "inj_on fst (set xs)"
    using slab_ok_distinct [OF assms(1)] by (simp add: distinct_map)
  then have "inj_on fst (set xs \<union> set ys)" using assms(3) by simp
  then show ?thesis
    using assms by (intro map_sorted_distinct_set_unique [of fst]) (simp_all add: slab_ok_distinct)
qed

lemma foldl_slab_delete:
  "foldl (\<lambda>db lkey. slab_delete lkey db) db ks = filter (\<lambda>kv. fst kv \<notin> set ks) db"
proof (induction ks arbitrary: db)
  case Nil
  then show ?case by simp
next
  case (Cons k ks)
  have "filter (\<lambda>kv. fst kv \<notin> set ks) (slab_delete k db) =
          filter (\<lambda>kv. fst kv \<notin> set (k # ks)) db"
    by (simp add: slab_delete_def case_prod_beta conj_commute)
  then show ?case by (simp only: foldl_Cons Cons.IH)
qed

lemma blobs_delBlobByts:
  "blobs (delBlobByts s sha) = filter (\<lambda>kv. \<not> prefix sha (fst kv)) (blobs s)"
proof -
  have "\<And>kv. kv \<in> set (blobs s) \<Longrightarrow>
          (fst kv \<notin> set (scanKeysByPref sha (blobs s))) = (\<not> prefix sha (fst kv))"
    by (auto simp: scanKeysByPref_def scanByPref_def)
  then show ?thesis
    by (simp add: delBlobByts_def foldl_slab_delete cong: filter_cong)
qed

lemma scanByPref_delBlobByts: "scanByPref sha (blobs (delBlobByts s sha)) = []"
  by (simp add: blobs_delBlobByts scanByPref_def case_prod_beta)

subsection \<open>Writing the chunks of a blob\<close>

lemma pow256_8: "(256::nat) ^ 8 = 2 ^ 64"
  by simp

lemma to_bytes_8: "n < 2 ^ 64 \<Longrightarrow> to_bytes n 8 = Inr (be_bytes 8 n)"
  by (simp add: to_bytes_def)

lemma to_bytes_8_overflow: "\<not> n < 2 ^ 64 \<Longrightarrow> to_bytes n 8 = Inl OverflowError"
  by (simp add: to_bytes_def)

lemma from_bytes_be_bytes_8: "n < 2 ^ 64 \<Longrightarrow> from_bytes (be_bytes 8 n) = n"
  by (rule from_bytes_be_bytes) simp

lemma chunk_key_inj:
  assumes "i < 2 ^ 64" "j < 2 ^ 64"
  shows "(sha @ be_bytes 8 i = sha @ be_bytes 8 j) = (i = j)"
proof
  assume "sha @ be_bytes 8 i = sha @ be_bytes 8 j"
  then have eq: "be_bytes 8 i = be_bytes 8 j" by simp
  have "i = from_bytes (be_bytes 8 i)" using assms(1) by (simp only: from_bytes_be_bytes_8)
  also have "\<dots> = from_bytes (be_bytes 8 j)" by (simp only: eq)
  also have "\<dots> = j" using assms(2) by (simp only: from_bytes_be_bytes_8)
  finally show "i = j" .
qed simp

lemma chunk_key_less:
  "i < j \<Longrightarrow> j < 2 ^ 64 \<Longrightarrow> sha @ be_bytes 8 i < sha @ be_bytes 8 j"
  by (simp add: be_bytes_mono)

lemma saveFileGenr_loop_eq:
  "i + length cs \<le> 2 ^ 64 \<Longrightarrow>
   saveFileGenr_loop sha fin i sz cs db =
     ((case fin of None \<Rightarrow> Inr (sz + sum_list (map length cs)) | Some e \<Rightarrow> Inl e),
      put_chunks sha i cs db)"
proof (induction cs arbitrary: i sz db)
  case Nil
  then show ?case by (simp split: option.splits)
next
  case (Cons c cs)
  have i: "i < 2 ^ 64" and rest: "Suc i + length cs \<le> 2 ^ 64" using Cons.prems by simp_all
  show ?case
    using Cons.IH [OF rest] by (simp add: to_bytes_8 [OF i] add.assoc split: option.splits)
qed

lemma slab_ok_put_chunks: "slab_ok db \<Longrightarrow> slab_ok (put_chunks sha i cs db)"
  by (induction cs arbitrary: i db) (simp_all add: slab_ok_slab_put)

lemma map_fst_chunk_entries:
  "map fst (chunk_entries sha i cs) = map (\<lambda>j. sha @ be_bytes 8 j) [i..<i + length cs]"
  by (simp add: chunk_entries_def)

lemma map_snd_chunk_entries: "map snd (chunk_entries sha i cs) = cs"
  by (simp add: chunk_entries_def)

lemma slab_ok_chunk_entries:
  assumes "i + length cs \<le> 2 ^ 64"
  shows "slab_ok (chunk_entries sha i cs)"
proof -
  have "sorted_wrt (<) (map (\<lambda>j. sha @ be_bytes 8 j) [i..<i + length cs])"
    unfolding sorted_wrt_map
  proof (rule sorted_wrt_mono_rel [where P = "(<)"])
    fix x y assume "x \<in> set [i..<i + length cs]" "y \<in> set [i..<i + length cs]" "x < y"
    then show "sha @ be_bytes 8 x < sha @ be_bytes 8 y"
      using assms by (intro chunk_key_less) simp_all
  qed simp
  then show ?thesis by (simp add: slab_ok_def map_fst_chunk_entries)
qed

lemma chunk_entries_Cons:
  "chunk_entries sha i (c # cs) = (sha @ be_bytes 8 i, c) # chunk_entries sha (Suc i) cs"
proof -
  have "[i..<i + length (c # cs)] = i # [Suc i..<Suc i + length cs]"
    by (subst upt_rec) simp
  then show ?thesis unfolding chunk_entries_def by simp
qed

lemma dom_chunk_entries:
  "dom (map_of (chunk_entries sha i cs)) = (\<lambda>j. sha @ be_bytes 8 j) ` {i..<i + length cs}"
proof -
  have "dom (map_of (chunk_entries sha i cs)) = set (map fst (chunk_entries sha i cs))"
    by (simp add: dom_map_of_conv_image_fst)
  then show ?thesis unfolding map_fst_chunk_entries by simp
qed

lemma map_of_put_chunks:
  "i + length cs \<le> 2 ^ 64 \<Longrightarrow>
   map_of (put_chunks sha i cs db) = map_of db ++ map_of (chunk_entries sha i cs)"
proof (induction cs arbitrary: i db)
  case Nil
  then show ?case by (simp add: chunk_entries_def)
next
  case (Cons c cs)
  have i: "i < 2 ^ 64" and rest: "Suc i + length cs \<le> 2 ^ 64" using Cons.prems by simp_all
  have "sha @ be_bytes 8 i \<notin> dom (map_of (chunk_entries sha (Suc i) cs))"
  proof
    assume "sha @ be_bytes 8 i \<in> dom (map_of (chunk_entries sha (Suc i) cs))"
    then obtain j where j: "Suc i \<le> j" "j < Suc i + length cs"
      and eq: "sha @ be_bytes 8 i = sha @ be_bytes 8 j"
      by (auto simp: dom_chunk_entries)
    have "j < 2 ^ 64" using j rest by simp
    then have "i = j" using chunk_key_inj [of i j sha] eq i by blast
    then show False using j by simp
  qed
  then have step: "(map_of db)(sha @ be_bytes 8 i \<mapsto> c) ++ map_of (chunk_entries sha (Suc i) cs)
      = map_of db ++ map_of (chunk_entries sha i (c # cs))"
    by (auto simp: chunk_entries_Cons fun_eq_iff map_add_def split: option.splits)
  have "map_of (put_chunks sha i (c # cs) db)
      = (map_of db)(sha @ be_bytes 8 i \<mapsto> c) ++ map_of (chunk_entries sha (Suc i) cs)"
    by (simp only: put_chunks.simps Cons.IH [OF rest] map_of_slab_put)
  then show ?case by (simp only: step)
qed

lemma in_slab_iff: "slab_ok db \<Longrightarrow> ((k, v) \<in> set db) = (map_of db k = Some v)"
  using slab_ok_distinct [of db] by simp

lemma prefix_chunk_entries:
  "(k, v) \<in> set (chunk_entries sha i cs) \<Longrightarrow> prefix sha k"
  by (auto simp: chunk_entries_def dest!: set_zip_leftD)

lemma scanByPref_put_chunks:
  assumes ok: "slab_ok db" and len: "i + length cs \<le> 2 ^ 64"
    and within: "\<forall>kv \<in> set db. prefix sha (fst kv) \<longrightarrow>
                   (\<exists>j. i \<le> j \<and> j < i + length cs \<and> fst kv = sha @ be_bytes 8 j)"
  shows "scanByPref sha (put_chunks sha i cs db) = chunk_entries sha i cs"
proof (rule slab_eqI)
  show "slab_ok (scanByPref sha (put_chunks sha i cs db))"
    unfolding scanByPref_def by (intro slab_ok_filter slab_ok_put_chunks ok)
  show "slab_ok (chunk_entries sha i cs)" by (rule slab_ok_chunk_entries [OF len])
  show "set (scanByPref sha (put_chunks sha i cs db)) = set (chunk_entries sha i cs)"
  proof (rule set_eqI)
    fix kv :: "bytes \<times> bytes"
    obtain k v where kv: "kv = (k, v)" by (cases kv)
    have okp: "slab_ok (put_chunks sha i cs db)" by (rule slab_ok_put_chunks [OF ok])
    have oke: "slab_ok (chunk_entries sha i cs)" by (rule slab_ok_chunk_entries [OF len])
    show "(kv \<in> set (scanByPref sha (put_chunks sha i cs db))) = (kv \<in> set (chunk_entries sha i cs))"
    proof (cases "k \<in> dom (map_of (chunk_entries sha i cs))")
      case True
      then obtain v' where v': "map_of (chunk_entries sha i cs) k = Some v'" by auto
      then have "(k, v') \<in> set (chunk_entries sha i cs)" by (simp add: in_slab_iff [OF oke])
      then have "prefix sha k" by (rule prefix_chunk_entries)
      then show ?thesis
        using v' by (simp add: kv scanByPref_def in_slab_iff [OF okp] in_slab_iff [OF oke]
            map_of_put_chunks [OF len] map_add_def)
    next
      case False
      then have none: "map_of (chunk_entries sha i cs) k = None" by auto
      have "\<not> (map_of db k = Some v \<and> prefix sha k)"
      proof
        assume a: "map_of db k = Some v \<and> prefix sha k"
        then have "(k, v) \<in> set db" by (simp add: in_slab_iff [OF ok])
        with a within obtain j where "i \<le> j" "j < i + length cs" "k = sha @ be_bytes 8 j"
          by fastforce
        then have "k \<in> dom (map_of (chunk_entries sha i cs))"
          by (simp add: dom_chunk_entries)
        with False show False by simp
      qed
      then show ?thesis
        using none by (auto simp: kv scanByPref_def in_slab_iff [OF okp] in_slab_iff [OF oke]
            map_of_put_chunks [OF len] map_add_def)
    qed
  qed
qed

subsection \<open>The operations, case by case\<close>

lemma reqBelowLimit_HitLimit: "reqBelowLimit s = Some e \<Longrightarrow> e = HitLimit"
  by (auto simp: reqBelowLimit_def split: if_splits)

lemma reqBelowLimit_cong:
  "maxbytes s' = maxbytes s \<Longrightarrow> maxcount s' = maxcount s \<Longrightarrow> file_count s' = file_count s \<Longrightarrow>
   size_bytes s' = size_bytes s \<Longrightarrow> reqBelowLimit s' = reqBelowLimit s"
  by (simp add: reqBelowLimit_def cong: option.case_cong)

lemma hashlocks_restore:
  "hashlocks s sha \<noteq> Some 0 \<Longrightarrow>
   (case hashlocks s sha of None \<Rightarrow> (hashlocks s)(sha := None)
    | Some c \<Rightarrow> (hashlocks s)(sha \<mapsto> c)) = hashlocks s"
  by (auto split: option.splits)

lemma holdHashLock_Inl:
  "body (s\<lparr>hashlocks := (hashlocks s)(sha \<mapsto> (case hashlocks s sha of None \<Rightarrow> 0 | Some c \<Rightarrow> c) + 1)\<rparr>)
     = (Inl e, s2) \<Longrightarrow>
   holdHashLock s sha body = (Inl e, s2)"
  by (simp add: holdHashLock_def Let_def)

lemma save_limit: "reqBelowLimit s = Some e \<Longrightarrow> save s sha g = (Inl HitLimit, s)"
  using reqBelowLimit_HitLimit [of s e] by (simp add: save_def)

lemma save_present:
  assumes "reqBelowLimit s = None" "slab_get sha (sizes s) = Some byts" "hashlocks s sha \<noteq> Some 0"
  shows "save s sha g = (Inr (from_bytes byts), s)"
  unfolding save_def holdHashLock_def using assms
  by (cases "hashlocks s sha") (simp_all add: Let_def fun_upd_idem)

lemma save_new:
  assumes lim: "reqBelowLimit s = None" and new: "slab_get sha (sizes s) = None"
    and len: "length cs \<le> 2 ^ 64" and tot: "sum_list (map length cs) < 2 ^ 64"
    and hl: "hashlocks s sha \<noteq> Some 0"
  shows "save s sha (cs, None) =
     (Inr (sum_list (map length cs)),
      s\<lparr>blobs := put_chunks sha 0 cs (blobs s),
        axonhist := axonhist s @ [(now s, sha, sum_list (map length cs))],
        axonseqn := axonseqn s @ [(sha, sum_list (map length cs))],
        file_count := file_count s + 1,
        size_bytes := size_bytes s + int (sum_list (map length cs)),
        sizes := slab_put sha (be_bytes 8 (sum_list (map length cs))) (sizes s)\<rparr>)"
proof -
  have len': "0 + length cs \<le> 2 ^ 64" using len by simp
  show ?thesis
    unfolding save_def holdHashLock_def using lim new hl
    by (cases "hashlocks s sha")
      (simp_all add: saveFileGenr_def saveFileGenr_loop_eq [OF len']
        addSyncItem_def to_bytes_8 [OF tot] Let_def fun_upd_idem)
qed

lemma save_fail:
  assumes lim: "reqBelowLimit s = None" and new: "slab_get sha (sizes s) = None"
    and len: "length cs \<le> 2 ^ 64"
  shows "save s sha (cs, Some e) =
     (Inl e,
      s\<lparr>hashlocks := (hashlocks s)(sha \<mapsto> (case hashlocks s sha of None \<Rightarrow> 0 | Some c \<Rightarrow> c) + 1),
        blobs := put_chunks sha 0 cs (blobs s)\<rparr>)"
proof -
  have len': "0 + length cs \<le> 2 ^ 64" using len by simp
  show ?thesis
    unfolding save_def using lim
    by (simp add: holdHashLock_Inl new saveFileGenr_def saveFileGenr_loop_eq [OF len'])
qed

lemma del_absent:
  assumes "slab_get sha (sizes s) = None" "hashlocks s sha \<noteq> Some 0"
  shows "del_axon s sha = (Inr False, s)"
proof -
  have "slab_delete sha (sizes s) = sizes s"
    using assms(1) by (simp add: slab_get_def slab_delete_absent)
  then show ?thesis
    unfolding del_axon_def holdHashLock_def using assms
    by (cases "hashlocks s sha") (simp_all add: slab_pop_def py_not_def Let_def fun_upd_idem)
qed

lemma del_present:
  assumes "slab_get sha (sizes s) = Some byts" "byts \<noteq> []" "hashlocks s sha \<noteq> Some 0"
  shows "del_axon s sha =
     (Inr True,
      s\<lparr>sizes := slab_delete sha (sizes s),
        file_count := file_count s - 1,
        size_bytes := size_bytes s - int (from_bytes byts),
        blobs := filter (\<lambda>kv. \<not> prefix sha (fst kv)) (blobs s)\<rparr>)"
proof -
  have eq: "\<And>t. delBlobByts t sha = t\<lparr>blobs := filter (\<lambda>kv. \<not> prefix sha (fst kv)) (blobs t)\<rparr>"
    using blobs_delBlobByts by (simp add: delBlobByts_def)
  show ?thesis
    unfolding del_axon_def holdHashLock_def using assms
    by (cases "hashlocks s sha") (simp_all add: slab_pop_def py_not_def Let_def eq fun_upd_idem)
qed

subsection \<open>The upload manager\<close>

declare read_chunks.simps [simp del]

lemma CHUNK_SIZE_pos: "0 < CHUNK_SIZE"
  by (simp add: CHUNK_SIZE_def mebibyte_def)

lemma read_chunks_Nil [simp]: "read_chunks n [] = []"
  by (subst read_chunks.simps) simp

lemma read_chunks_small: "byts \<noteq> [] \<Longrightarrow> length byts \<le> n \<Longrightarrow> read_chunks n byts = [byts]"
  by (subst read_chunks.simps) (cases n; simp)

lemma concat_read_chunks: "0 < n \<Longrightarrow> concat (read_chunks n byts) = byts"
proof (induction n byts rule: read_chunks.induct)
  case (1 n byts)
  show ?case
  proof (cases "take n byts = []")
    case True
    then have "byts = []" using "1.prems" by simp
    then show ?thesis by simp
  next
    case False
    then show ?thesis
      using "1.IH" "1.prems" by (subst read_chunks.simps) simp
  qed
qed

lemma sum_length_read_chunks:
  "0 < n \<Longrightarrow> sum_list (map length (read_chunks n byts)) = length byts"
  using concat_read_chunks [of n byts] length_concat [of "read_chunks n byts"] by simp

lemma length_read_chunks_le: "length (read_chunks n byts) \<le> length byts"
proof (induction n byts rule: read_chunks.induct)
  case (1 n byts)
  show ?case
  proof (cases "take n byts = []")
    case True
    then show ?thesis by (subst read_chunks.simps) simp
  next
    case False
    then have "0 < n" "byts \<noteq> []" by auto
    then have "length (drop n byts) < length byts" by simp
    moreover have "length (read_chunks n (drop n byts)) \<le> length (drop n byts)"
      by (rule "1.IH" [OF False])
    ultimately have "Suc (length (read_chunks n (drop n byts))) \<le> length byts" by linarith
    then show ?thesis
      using False by (subst read_chunks.simps) (simp del: length_drop)
  qed
qed

lemma UpLoad_write_anit:
  "UpLoad_write UpLoad_anit byts =
     \<lparr>up_fd = byts, up_size = length byts, up_sha256 = byts, up_isfini = False\<rparr>"
  by (simp add: UpLoad_write_def UpLoad_anit_def)

lemma foldl_UpLoad_write:
  "foldl UpLoad_write u chunks =
     u\<lparr>up_size := up_size u + length (concat chunks),
       up_sha256 := up_sha256 u @ concat chunks,
       up_fd := up_fd u @ concat chunks\<rparr>"
  by (induction chunks arbitrary: u) (simp_all add: UpLoad_write_def)

lemma foldl_hashset_update: "foldl hashset_update hs chunks = hs @ concat chunks"
  by (induction chunks arbitrary: hs) (simp_all add: hashset_update_def)

lemma UpLoad_save_present:
  "has s (H (up_sha256 u)) \<Longrightarrow>
   UpLoad_save H s u = (Inr (up_size u, H (up_sha256 u)), s, UpLoad_reset u)"
  by (simp add: UpLoad_save_def Let_def)

lemma UpLoad_save_limit:
  "\<not> has s (H (up_sha256 u)) \<Longrightarrow> reqBelowLimit s = Some e \<Longrightarrow>
   UpLoad_save H s u = (Inl HitLimit, s, u)"
  by (simp add: UpLoad_save_def Let_def save_limit)

lemma UpLoad_save_new:
  assumes new: "\<not> has s (H (up_sha256 u))" and lim: "reqBelowLimit s = None"
    and live: "\<not> up_isfini u" and len: "length (up_fd u) < 2 ^ 64"
    and hl: "hashlocks s (H (up_sha256 u)) \<noteq> Some 0"
  shows "UpLoad_save H s u =
     (Inr (up_size u, H (up_sha256 u)),
      s\<lparr>blobs := put_chunks (H (up_sha256 u)) 0 (read_chunks CHUNK_SIZE (up_fd u)) (blobs s),
        axonhist := axonhist s @ [(now s, H (up_sha256 u), length (up_fd u))],
        axonseqn := axonseqn s @ [(H (up_sha256 u), length (up_fd u))],
        file_count := file_count s + 1,
        size_bytes := size_bytes s + int (length (up_fd u)),
        sizes := slab_put (H (up_sha256 u)) (be_bytes 8 (length (up_fd u))) (sizes s)\<rparr>,
      UpLoad_reset u)"
proof -
  let ?cs = "read_chunks CHUNK_SIZE (up_fd u)"
  have tot: "sum_list (map length ?cs) = length (up_fd u)"
    by (rule sum_length_read_chunks [OF CHUNK_SIZE_pos])
  have n: "length ?cs \<le> 2 ^ 64"
    using length_read_chunks_le [of CHUNK_SIZE "up_fd u"] len by simp
  have new': "slab_get (H (up_sha256 u)) (sizes s) = None" using new by (simp add: has_def)
  have tot': "sum_list (map length ?cs) < 2 ^ 64" using tot len by simp
  show ?thesis
    using new live save_new [OF lim new' n tot' hl]
    by (simp add: UpLoad_save_def UpLoad_genr_def Let_def tot)
qed

lemma put_present:
  "has s (H byts) \<Longrightarrow> put H s byts = (Inr (length byts, H byts), s)"
  by (simp add: put_def UpLoad_write_anit UpLoad_save_present)

lemma put_limit:
  "\<not> has s (H byts) \<Longrightarrow> reqBelowLimit s = Some e \<Longrightarrow> put H s byts = (Inl HitLimit, s)"
  by (simp add: put_def UpLoad_write_anit UpLoad_save_limit)

lemma put_new:
  assumes "\<not> has s (H byts)" "reqBelowLimit s = None" "length byts < 2 ^ 64"
    "hashlocks s (H byts) \<noteq> Some 0"
  shows "put H s byts =
     (Inr (length byts, H byts),
      s\<lparr>blobs := put_chunks (H byts) 0 (read_chunks CHUNK_SIZE byts) (blobs s),
        axonhist := axonhist s @ [(now s, H byts, length byts)],
        axonseqn := axonseqn s @ [(H byts, length byts)],
        file_count := file_count s + 1,
        size_bytes := size_bytes s + int (length byts),
        sizes := slab_put (H byts) (be_bytes 8 (length byts)) (sizes s)\<rparr>)"
  using assms UpLoad_save_new [of s H "UpLoad_write UpLoad_anit byts"]
  by (simp add: put_def UpLoad_write_anit)

lemma puts_present:
  "has s (H byts) \<Longrightarrow>
   puts H s (replicate n byts) = (Inr (replicate n (length byts, H byts)), s)"
  by (induction n) (simp_all add: put_present)

subsection \<open>What a returning save did; well-formedness is kept\<close>

lemma saveFileGenr_loop_Inr:
  "saveFileGenr_loop sha fin i sz cs db = (Inr r, db') \<Longrightarrow>
   fin = None \<and> (cs = [] \<or> i + length cs \<le> 2 ^ 64) \<and>
   r = sz + sum_list (map length cs) \<and> db' = put_chunks sha i cs db"
proof (induction cs arbitrary: i sz db)
  case Nil
  then show ?case by (simp split: option.splits)
next
  case (Cons c cs)
  have i: "i < 2 ^ 64"
    using Cons.prems by (cases "i < 2 ^ 64") (simp_all add: to_bytes_def)
  have "saveFileGenr_loop sha fin (Suc i) (sz + length c) cs
          (slab_put (sha @ be_bytes 8 i) c db) = (Inr r, db')"
    using Cons.prems by (simp add: to_bytes_8 [OF i])
  from Cons.IH [OF this] i show ?case by auto
qed

lemma slab_ok_saveFileGenr_loop:
  "slab_ok db \<Longrightarrow> slab_ok (snd (saveFileGenr_loop sha fin i sz cs db))"
proof (induction cs arbitrary: i sz db)
  case Nil
  then show ?case by (simp split: option.splits)
next
  case (Cons c cs)
  show ?case
  proof (cases "i < 2 ^ 64")
    case True
    then show ?thesis
      using Cons.IH [OF slab_ok_slab_put [OF Cons.prems]] by (simp add: to_bytes_8)
  next
    case False
    then show ?thesis using Cons.prems by (simp add: to_bytes_8_overflow)
  qed
qed

lemma save_Inr_cases:
  assumes hl: "hashlocks s sha \<noteq> Some 0" and sv: "save s sha g = (Inr sz, s')"
  shows "(has s sha \<and> size_axon s sha = Some sz \<and> s' = s) \<or>
         (\<not> has s sha \<and> reqBelowLimit s = None \<and> snd g = None \<and> length (fst g) \<le> 2 ^ 64 \<and>
          sz = sum_list (map length (fst g)) \<and> sz < 2 ^ 64 \<and>
          s' = s\<lparr>blobs := put_chunks sha 0 (fst g) (blobs s),
                 axonhist := axonhist s @ [(now s, sha, sz)],
                 axonseqn := axonseqn s @ [(sha, sz)],
                 file_count := file_count s + 1,
                 size_bytes := size_bytes s + int sz,
                 sizes := slab_put sha (be_bytes 8 sz) (sizes s)\<rparr>)"
proof -
  have lim: "reqBelowLimit s = None"
    using sv by (cases "reqBelowLimit s") (simp_all add: save_def)
  show ?thesis
  proof (cases "slab_get sha (sizes s)")
    case (Some byts)
    then show ?thesis
      using sv save_present [OF lim Some hl, of g] by (simp add: has_def size_axon_def)
  next
    case None
    obtain cs fin where g: "g = (cs, fin)" by (cases g)
    obtain r db' where loop: "saveFileGenr_loop sha fin 0 0 cs (blobs s) = (r, db')"
      by (cases "saveFileGenr_loop sha fin 0 0 cs (blobs s)")
    have r: "\<exists>t. r = Inr t"
      using sv lim None loop
      by (cases r) (simp_all add: save_def holdHashLock_def saveFileGenr_def g Let_def)
    then obtain t where t: "r = Inr t" by blast
    from saveFileGenr_loop_Inr [OF loop [unfolded t]]
    have fin: "fin = None" and len: "length cs \<le> 2 ^ 64" and tot: "t = sum_list (map length cs)"
      by auto
    have small: "t < 2 ^ 64"
    proof (rule ccontr)
      assume "\<not> t < 2 ^ 64"
      then show False
        using sv lim None loop t
        by (simp add: save_def holdHashLock_def saveFileGenr_def g Let_def to_bytes_8_overflow)
    qed
    have full: "save s sha g =
      (Inr t, s\<lparr>blobs := put_chunks sha 0 cs (blobs s),
        axonhist := axonhist s @ [(now s, sha, t)],
        axonseqn := axonseqn s @ [(sha, t)],
        file_count := file_count s + 1,
        size_bytes := size_bytes s + int t,
        sizes := slab_put sha (be_bytes 8 t) (sizes s)\<rparr>)"
      using save_new [OF lim None len small [unfolded tot] hl] by (simp add: g fin tot)
    have "(Inr sz :: exc + nat, s') = (Inr t, s\<lparr>blobs := put_chunks sha 0 cs (blobs s),
        axonhist := axonhist s @ [(now s, sha, t)],
        axonseqn := axonseqn s @ [(sha, t)],
        file_count := file_count s + 1,
        size_bytes := size_bytes s + int t,
        sizes := slab_put sha (be_bytes 8 t) (sizes s)\<rparr>)"
      using sv full by (simp only:)
    then have both: "sz = t \<and> s' = s\<lparr>blobs := put_chunks sha 0 cs (blobs s),
        axonhist := axonhist s @ [(now s, sha, t)],
        axonseqn := axonseqn s @ [(sha, t)],
        file_count := file_count s + 1,
        size_bytes := size_bytes s + int t,
        sizes := slab_put sha (be_bytes 8 t) (sizes s)\<rparr>"
      by (simp only: prod.inject sum.inject)
    then have sz: "sz = t" by blast
    have s': "s' = s\<lparr>blobs := put_chunks sha 0 cs (blobs s),
        axonhist := axonhist s @ [(now s, sha, t)],
        axonseqn := axonseqn s @ [(sha, t)],
        file_count := file_count s + 1,
        size_bytes := size_bytes s + int t,
        sizes := slab_put sha (be_bytes 8 t) (sizes s)\<rparr>"
      using both by blast
    have "\<not> has s sha" using None by (simp add: has_def)
    then show ?thesis
      unfolding sz s' using len small tot lim by (simp add: g fin)
  qed
qed

lemma axon_ok_anit: "axon_ok (axon_anit mb mc t)"
  by (simp add: axon_ok_def axon_anit_def slab_ok_def)

lemma axon_ok_save_Inr:
  assumes "axon_ok s" "save s sha g = (Inr sz, s')"
  shows "axon_ok s'"
proof -
  have hl: "hashlocks s sha \<noteq> Some 0" using assms(1) by (simp add: axon_ok_def)
  from save_Inr_cases [OF hl assms(2)] show ?thesis
  proof
    assume "has s sha \<and> size_axon s sha = Some sz \<and> s' = s"
    then show ?thesis using assms(1) by simp
  next
    assume a: "\<not> has s sha \<and> reqBelowLimit s = None \<and> snd g = None \<and> length (fst g) \<le> 2 ^ 64 \<and>
          sz = sum_list (map length (fst g)) \<and> sz < 2 ^ 64 \<and>
          s' = s\<lparr>blobs := put_chunks sha 0 (fst g) (blobs s),
                 axonhist := axonhist s @ [(now s, sha, sz)],
                 axonseqn := axonseqn s @ [(sha, sz)],
                 file_count := file_count s + 1,
                 size_bytes := size_bytes s + int sz,
                 sizes := slab_put sha (be_bytes 8 sz) (sizes s)\<rparr>"
    have "\<forall>kv \<in> set (slab_put sha (be_bytes 8 sz) (sizes s)). length (snd kv) = 8"
      using assms(1) by (auto simp: axon_ok_def set_slab_put)
    then show ?thesis
      using a assms(1) by (simp add: axon_ok_def slab_ok_put_chunks slab_ok_slab_put)
  qed
qed

lemma axon_ok_save_Inl:
  assumes "axon_ok s" "save s sha g = (Inl e, s')"
  shows "axon_ok s'"
proof (cases "reqBelowLimit s")
  case (Some x)
  then show ?thesis using assms by (simp add: save_def)
next
  case None
  obtain r db' where loop: "saveFileGenr_loop sha (snd g) 0 0 (fst g) (blobs s) = (r, db')"
    by (cases "saveFileGenr_loop sha (snd g) 0 0 (fst g) (blobs s)")
  have db': "slab_ok db'"
    using slab_ok_saveFileGenr_loop [of "blobs s" sha "snd g" 0 0 "fst g"] assms(1) loop
    by (simp add: axon_ok_def)
  show ?thesis
    using assms None loop db'
    by (auto simp: save_def holdHashLock_def saveFileGenr_def Let_def addSyncItem_def axon_ok_def
        split: option.splits sum.splits if_splits)
qed

lemma axon_ok_del:
  assumes "axon_ok s" "del_axon s sha = (r, s')"
  shows "axon_ok s'"
proof -
  have hl: "hashlocks s sha \<noteq> Some 0" using assms(1) by (simp add: axon_ok_def)
  show ?thesis
  proof (cases "slab_get sha (sizes s)")
    case None
    then show ?thesis using assms del_absent [OF None hl] by simp
  next
    case (Some byts)
    then have "(sha, byts) \<in> set (sizes s)" by (simp add: slab_get_def map_of_SomeD)
    then have "byts \<noteq> []" using assms(1) by (fastforce simp: axon_ok_def)
    from del_present [OF Some this hl] show ?thesis
      using assms by (auto simp: axon_ok_def slab_ok_filter slab_ok_slab_delete slab_delete_def)
  qed
qed

subsection \<open>The example stores, computed\<close>

lemma eight_Suc: "(8::nat) = Suc (Suc (Suc (Suc (Suc (Suc (Suc (Suc 0)))))))"
  by simp

lemma be_bytes_8_0: "be_bytes 8 0 = [0, 0, 0, 0, 0, 0, 0, 0]"
  unfolding eight_Suc by simp

lemma be_bytes_8_1: "be_bytes 8 1 = [0, 0, 0, 0, 0, 0, 0, 1]"
  unfolding eight_Suc by simp

lemma be_bytes_8_3: "be_bytes 8 3 = [0, 0, 0, 0, 0, 0, 0, 3]"
  unfolding eight_Suc by simp

lemma toy_abc: "toy_hash [97, 98, 99] = [97, 98, 99] @ replicate 29 0"
  by (simp add: toy_hash_def)

lemma anit_fields [simp]:
  "sizes (axon_anit mb mc t) = []" "blobs (axon_anit mb mc t) = []"
  "axonseqn (axon_anit mb mc t) = []" "axonhist (axon_anit mb mc t) = []"
  "file_count (axon_anit mb mc t) = 0" "size_bytes (axon_anit mb mc t) = 0"
  "hashlocks (axon_anit mb mc t) = Map.empty" "maxbytes (axon_anit mb mc t) = mb"
  "maxcount (axon_anit mb mc t) = mc" "now (axon_anit mb mc t) = t"
  by (simp_all add: axon_anit_def)

lemma reqBelowLimit_anit: "reqBelowLimit (axon_anit None mc t) = (case mc of None \<Rightarrow> None | Some c \<Rightarrow> if c \<le> 0 then Some HitLimit else None)"
  by (simp add: reqBelowLimit_def split: option.splits)

lemma has_anit [simp]: "\<not> has (axon_anit mb mc t) sha"
  by (simp add: has_def slab_get_def)

lemma ex_abc_eq:
  "ex_abc = (axon_anit None (Some 1) 0)
     \<lparr>blobs := [(toy_hash [97, 98, 99] @ be_bytes 8 0, [97, 98, 99])],
      axonhist := [(0, toy_hash [97, 98, 99], 3)],
      axonseqn := [(toy_hash [97, 98, 99], 3)],
      file_count := 1, size_bytes := 3,
      sizes := [(toy_hash [97, 98, 99], be_bytes 8 3)]\<rparr>"
  unfolding ex_abc_def
  by (subst put_new)
    (simp_all add: reqBelowLimit_anit read_chunks_small CHUNK_SIZE_def mebibyte_def
      numeral_3_eq_3)

lemma ex_zero_eq:
  "ex_zero = (axon_anit None None 0)
     \<lparr>blobs := [],
      axonhist := [(0, toy_hash [], 0)],
      axonseqn := [(toy_hash [], 0)],
      file_count := 1, size_bytes := 0,
      sizes := [(toy_hash [], be_bytes 8 0)]\<rparr>"
  unfolding ex_zero_def
  by (subst put_new) (simp_all add: reqBelowLimit_anit)


lemma be_bytes_8_nonempty [simp]: "be_bytes 8 n \<noteq> []"
  using length_be_bytes [of 8 n] by (simp del: length_be_bytes flip: length_0_conv)

lemma toy_hash_1: "toy_hash [1] = 1 # replicate 31 0"
  by (simp add: toy_hash_def)

lemma toy_hash_2: "toy_hash [2] = 2 # replicate 31 0"
  by (simp add: toy_hash_def)

lemma ex_deleted_eq:
  "ex_deleted = (axon_anit None None 0)
     \<lparr>blobs := [(toy_hash [2] @ be_bytes 8 0, [2])],
      axonhist := [(0, toy_hash [1], 1), (0, toy_hash [2], 1)],
      axonseqn := [(toy_hash [1], 1), (toy_hash [2], 1)],
      file_count := 1, size_bytes := 1,
      sizes := [(toy_hash [2], be_bytes 8 1)]\<rparr>"
proof -
  let ?s0 = "axon_anit None None 0"
  let ?s1 = "?s0\<lparr>blobs := [(toy_hash [1] @ be_bytes 8 0, [1])],
      axonhist := [(0, toy_hash [1], 1)],
      axonseqn := [(toy_hash [1], 1)],
      file_count := 1, size_bytes := 1,
      sizes := [(toy_hash [1], be_bytes 8 1)]\<rparr>"
  let ?s2 = "?s0\<lparr>blobs := [(toy_hash [1] @ be_bytes 8 0, [1]), (toy_hash [2] @ be_bytes 8 0, [2])],
      axonhist := [(0, toy_hash [1], 1), (0, toy_hash [2], 1)],
      axonseqn := [(toy_hash [1], 1), (toy_hash [2], 1)],
      file_count := 2, size_bytes := 2,
      sizes := [(toy_hash [1], be_bytes 8 1), (toy_hash [2], be_bytes 8 1)]\<rparr>"
  have p1: "put toy_hash ?s0 [1] = (Inr (1, toy_hash [1]), ?s1)"
    by (subst put_new)
      (simp_all add: reqBelowLimit_anit read_chunks_small CHUNK_SIZE_def mebibyte_def)
  have new2: "\<not> has ?s1 (toy_hash [2])"
    by (simp add: has_def slab_get_def toy_hash_1 toy_hash_2)
  have lim2: "reqBelowLimit ?s1 = None" by (simp add: reqBelowLimit_def)
  have p2: "put toy_hash ?s1 [2] = (Inr (1, toy_hash [2]), ?s2)"
    using new2 lim2 by (subst put_new [where H = toy_hash and byts = "[2]"])
      (simp_all add: read_chunks_small CHUNK_SIZE_def mebibyte_def toy_hash_1 toy_hash_2)
  have g: "slab_get (toy_hash [1]) (sizes ?s2) = Some (be_bytes 8 1)"
    by (simp add: slab_get_def)
  have d: "del_axon ?s2 (toy_hash [1]) =
     (Inr True, ?s0\<lparr>blobs := [(toy_hash [2] @ be_bytes 8 0, [2])],
      axonhist := [(0, toy_hash [1], 1), (0, toy_hash [2], 1)],
      axonseqn := [(toy_hash [1], 1), (toy_hash [2], 1)],
      file_count := 1, size_bytes := 1,
      sizes := [(toy_hash [2], be_bytes 8 1)]\<rparr>)"
    by (subst del_present [OF g])
      (simp_all add: from_bytes_be_bytes_8 slab_delete_def toy_hash_1 toy_hash_2)
  show ?thesis
    unfolding ex_deleted_def by (simp only: p1 p2 d snd_conv)
qed

section \<open>The claims\<close>

lemma axon_ok_put:
  assumes "axon_ok s" "put H s byts = (r, s')"
  shows "axon_ok s'"
proof (cases "has s (H byts)")
  case True
  then show ?thesis using assms by (simp add: put_present)
next
  case False
  obtain r1 s1 where sv: "save s (H byts) (UpLoad_genr (UpLoad_write UpLoad_anit byts)) = (r1, s1)"
    by (cases "save s (H byts) (UpLoad_genr (UpLoad_write UpLoad_anit byts))")
  have "s' = s1"
    using assms(2) False sv
    by (cases r1) (simp_all add: put_def UpLoad_save_def UpLoad_write_anit Let_def)
  moreover have "axon_ok s1"
    using sv assms(1) by (cases r1) (auto intro: axon_ok_save_Inl axon_ok_save_Inr)
  ultimately show ?thesis by simp
qed

lemma axon_ok_ex_abc: "axon_ok ex_abc"
  unfolding ex_abc_def by (rule axon_ok_put [OF axon_ok_anit]) (rule surjective_pairing)

lemma axon_ok_ex_zero: "axon_ok ex_zero"
  unfolding ex_zero_def by (rule axon_ok_put [OF axon_ok_anit]) (rule surjective_pairing)

lemma axon_ok_ex_deleted: "axon_ok ex_deleted"
  unfolding ex_deleted_def
  by (rule axon_ok_del [OF axon_ok_put [OF axon_ok_put [OF axon_ok_anit]]])
    (rule surjective_pairing)+

text \<open>
  C4. Delete completeness. In a well-formed store \<open>del_\<close> returns \<open>False\<close> exactly when the
  size-index has no entry for the digest, and then the state is unchanged. Otherwise it
  returns \<open>True\<close>: the size-index entry is gone, \<open>file:count\<close> is one less and \<open>size:bytes\<close>
  is less by the recorded size, no chunk key with the digest as prefix is left, \<open>has\<close> is
  false and \<open>get\<close> fails with \<open>NoSuchFile\<close>.
\<close>

theorem del_complete:
  assumes "axon_ok s"
  shows "((fst (del_axon s sha) = Inr False) = (\<not> has s sha)) \<and>
    (\<not> has s sha \<longrightarrow> del_axon s sha = (Inr False, s)) \<and>
    (has s sha \<longrightarrow>
      (\<exists>s'. del_axon s sha = (Inr True, s') \<and>
        sizes s' = slab_delete sha (sizes s) \<and>
        file_count s' = file_count s - 1 \<and>
        size_bytes s' = size_bytes s - int (the (size_axon s sha)) \<and>
        blobs s' = filter (\<lambda>kv. \<not> prefix sha (fst kv)) (blobs s) \<and>
        scanKeysByPref sha (blobs s') = [] \<and>
        \<not> has s' sha \<and> get s' sha = Inl NoSuchFile))"
proof -
  have hl: "hashlocks s sha \<noteq> Some 0" using assms by (simp add: axon_ok_def)
  show ?thesis
  proof (cases "slab_get sha (sizes s)")
    case None
    then show ?thesis using del_absent [OF None hl] by (simp add: has_def)
  next
    case (Some byts)
    then have "(sha, byts) \<in> set (sizes s)" by (simp add: slab_get_def map_of_SomeD)
    then have ne: "byts \<noteq> []" using assms by (fastforce simp: axon_ok_def)
    have gone: "slab_get sha (slab_delete sha (sizes s)) = None"
      by (simp add: slab_get_def map_of_slab_delete)
    show ?thesis
      using del_present [OF Some ne hl] Some gone
      by (simp add: has_def size_axon_def get_def scanKeysByPref_def scanByPref_def
          case_prod_beta)
  qed
qed

theorem del_complete_witness:
  "axon_ok ex_abc \<and> has ex_abc (toy_hash [97, 98, 99]) \<and>
   fst (del_axon ex_abc (toy_hash [97, 98, 99])) = Inr True \<and>
   \<not> has (snd (del_axon ex_abc (toy_hash [97, 98, 99]))) (toy_hash [97, 98, 99]) \<and>
   get (snd (del_axon ex_abc (toy_hash [97, 98, 99]))) (toy_hash [97, 98, 99]) = Inl NoSuchFile \<and>
   file_count (snd (del_axon ex_abc (toy_hash [97, 98, 99]))) = 0 \<and>
   size_bytes (snd (del_axon ex_abc (toy_hash [97, 98, 99]))) = 0 \<and>
   blobs (snd (del_axon ex_abc (toy_hash [97, 98, 99]))) = [] \<and>
   del_axon (axon_anit None None 0) [1] = (Inr False, axon_anit None None 0)"
proof -
  have h: "has ex_abc (toy_hash [97, 98, 99])"
    by (simp add: ex_abc_eq has_def slab_get_def)
  have sz: "size_axon ex_abc (toy_hash [97, 98, 99]) = Some 3"
    by (simp add: ex_abc_eq size_axon_def slab_get_def from_bytes_be_bytes_8)
  have b: "blobs ex_abc = [(toy_hash [97, 98, 99] @ be_bytes 8 0, [97, 98, 99])]"
    and fc: "file_count ex_abc = 1" and sb: "size_bytes ex_abc = 3"
    by (simp_all add: ex_abc_eq)
  show ?thesis
    using del_complete [OF axon_ok_ex_abc, of "toy_hash [97, 98, 99]"]
      del_complete [OF axon_ok_anit [of None None 0], of "[1]"]
      h sz axon_ok_ex_abc
    by (auto simp: b fc sb)
qed

text \<open>
  C10. Deleting the stored empty blob. A size-index entry for size 0 is eight zero bytes
  (what \<open>save\<close> writes for an empty blob); the test \<^verbatim>\<open>not byts\<close> on the popped value is
  false for it, so \<open>del_\<close> returns \<open>True\<close>, the entry is removed, \<open>file:count\<close> is one less
  and \<open>size:bytes\<close> is unchanged.
\<close>

theorem del_empty_blob:
  assumes "slab_get sha (sizes s) = Some (replicate 8 0)"
  shows "to_bytes 0 8 = Inr (replicate 8 0) \<and>
    \<not> py_not (fst (slab_pop sha (sizes s))) \<and>
    fst (del_axon s sha) = Inr True \<and>
    \<not> has (snd (del_axon s sha)) sha \<and>
    sizes (snd (del_axon s sha)) = slab_delete sha (sizes s) \<and>
    file_count (snd (del_axon s sha)) = file_count s - 1 \<and>
    size_bytes (snd (del_axon s sha)) = size_bytes s - 0"
proof -
  have z: "be_bytes 8 0 = replicate 8 0"
    by (simp add: be_bytes_8_0 eight_Suc)
  have f: "from_bytes (replicate 8 0) = 0"
    using from_bytes_be_bytes_8 [of 0] by (simp only: z) simp
  have gone: "map_of (slab_delete sha (sizes s)) sha = None"
    by (simp add: map_of_slab_delete)
  have ne: "replicate 8 (0 :: byte) \<noteq> []" by simp
  show ?thesis
    using assms gone ne
    by (simp add: del_axon_def holdHashLock_def slab_pop_def py_not_def Let_def has_def
        slab_get_def delBlobByts_def f to_bytes_def z split: option.splits)
qed

theorem del_empty_blob_witness:
  "slab_get (toy_hash []) (sizes ex_zero) = Some (replicate 8 0) \<and>
   size_axon ex_zero (toy_hash []) = Some 0 \<and>
   fst (del_axon ex_zero (toy_hash [])) = Inr True \<and>
   \<not> has (snd (del_axon ex_zero (toy_hash []))) (toy_hash []) \<and>
   file_count (snd (del_axon ex_zero (toy_hash []))) = 0 \<and>
   size_bytes (snd (del_axon ex_zero (toy_hash []))) = 0"
proof -
  have g: "slab_get (toy_hash []) (sizes ex_zero) = Some (replicate 8 0)"
    by (simp add: ex_zero_eq slab_get_def be_bytes_8_0 eight_Suc)
  have sz: "size_axon ex_zero (toy_hash []) = Some 0"
    by (simp add: ex_zero_eq size_axon_def slab_get_def from_bytes_be_bytes_8)
  have m: "file_count ex_zero = 1" "size_bytes ex_zero = 0"
    by (simp_all add: ex_zero_eq)
  show ?thesis
    using del_empty_blob [OF g] g sz by (simp add: m)
qed

lemma count_key_slab:
  "slab_ok db \<Longrightarrow>
   length (filter (\<lambda>kv. fst kv = k) db) = (if map_of db k = None then 0 else 1)"
proof (induction db)
  case Nil
  then show ?case by simp
next
  case (Cons a db)
  obtain k' v' where a: "a = (k', v')" by (cases a)
  have ok: "slab_ok db" and lt: "\<forall>kv \<in> set db. k' < fst kv"
    using Cons.prems by (simp_all add: a slab_ok_Cons)
  show ?case
  proof (cases "k' = k")
    case True
    then have "\<forall>kv \<in> set db. fst kv \<noteq> k" using lt by fastforce
    then have "filter (\<lambda>kv. fst kv = k) db = []" by (simp add: filter_empty_conv)
    then show ?thesis using True by (simp add: a)
  next
    case False
    then show ?thesis using Cons.IH [OF ok] by (simp add: a)
  qed
qed

lemma metrics_ok_save_new:
  assumes "metrics_ok s" "slab_get sha (sizes s) = None" "sz < 2 ^ 64"
  shows "metrics_ok (s\<lparr>blobs := b, axonhist := h, axonseqn := q,
           file_count := file_count s + 1, size_bytes := size_bytes s + int sz,
           sizes := slab_put sha (be_bytes 8 sz) (sizes s)\<rparr>)"
  using assms
  by (simp add: metrics_ok_def slab_get_def length_slab_put_new sum_slab_put_new
      from_bytes_be_bytes_8)

lemma metrics_ok_del_present:
  assumes "metrics_ok s" "slab_ok (sizes s)" "slab_get sha (sizes s) = Some byts"
  shows "metrics_ok (s\<lparr>sizes := slab_delete sha (sizes s),
           file_count := file_count s - 1,
           size_bytes := size_bytes s - int (from_bytes byts),
           blobs := b\<rparr>)"
proof -
  have m: "map_of (sizes s) sha = Some byts" using assms(3) by (simp add: slab_get_def)
  have l: "Suc (length (slab_delete sha (sizes s))) = length (sizes s)"
    by (rule slab_delete_present(1) [OF assms(2) m])
  have t: "sum_list (map (\<lambda>kv. from_bytes (snd kv)) (slab_delete sha (sizes s)))
             + from_bytes byts = sum_list (map (\<lambda>kv. from_bytes (snd kv)) (sizes s))"
    using slab_delete_present(2) [OF assms(2) m, of "\<lambda>kv. from_bytes (snd kv)"] by simp
  show ?thesis
    using assms(1) l t by (simp add: metrics_ok_def)
qed

lemma save_Inl_metrics:
  assumes "save s sha g = (Inl e, s')" "sum_list (map length (fst g)) < 2 ^ 64"
  shows "sizes s' = sizes s \<and> file_count s' = file_count s \<and> size_bytes s' = size_bytes s \<and>
         axonseqn s' = axonseqn s \<and> axonhist s' = axonhist s"
proof (cases "reqBelowLimit s")
  case (Some x)
  then show ?thesis using assms by (simp add: save_def)
next
  case None
  obtain r db' where loop: "saveFileGenr_loop sha (snd g) 0 0 (fst g) (blobs s) = (r, db')"
    by (cases "saveFileGenr_loop sha (snd g) 0 0 (fst g) (blobs s)")
  show ?thesis
  proof (cases r)
    case (Inl x)
    then show ?thesis
      using assms(1) None loop
      by (auto simp: save_def holdHashLock_def saveFileGenr_def Let_def
          split: option.splits if_splits)
  next
    case (Inr t)
    from saveFileGenr_loop_Inr [OF loop [unfolded Inr]] assms(2)
    have "t < 2 ^ 64" by simp
    then show ?thesis
      using assms(1) None loop Inr
      by (auto simp: save_def holdHashLock_def saveFileGenr_def Let_def to_bytes_8
          split: option.splits if_splits)
  qed
qed

text \<open>
  C6. Metrics consistency. In a well-formed store whose counters agree with the size-index
  (\<open>file:count\<close> is the number of entries, \<open>size:bytes\<close> the sum of their sizes), a \<open>save\<close>
  that returns keeps the agreement: for a digest already present nothing changes, for a
  new digest there is one more entry, \<open>file:count\<close> is one more and \<open>size:bytes\<close> is more
  by the returned size. A \<open>del_\<close> that returns \<open>True\<close> keeps it too: one entry less,
  \<open>file:count\<close> one less, \<open>size:bytes\<close> less by the recorded size. A \<open>del_\<close> that returns
  \<open>False\<close> changes nothing, a \<open>put\<close> that returns keeps the agreement, and a \<open>save\<close> that
  raises (at the capacity check or from the producer) leaves the counters and the index
  as they were. The reading operations are functions of the state and return none.
\<close>

theorem metrics_consistent:
  assumes "axon_ok s" "metrics_ok s"
  shows "(save s sha g = (Inr sz, s1) \<longrightarrow>
       metrics_ok s1 \<and>
       (has s sha \<longrightarrow> s1 = s) \<and>
       (\<not> has s sha \<longrightarrow>
          length (sizes s1) = length (sizes s) + 1 \<and> size_axon s1 sha = Some sz \<and>
          file_count s1 = file_count s + 1 \<and> size_bytes s1 = size_bytes s + int sz)) \<and>
     (del_axon s sha = (Inr True, s2) \<longrightarrow>
       metrics_ok s2 \<and> length (sizes s2) + 1 = length (sizes s) \<and> \<not> has s2 sha \<and>
       file_count s2 = file_count s - 1 \<and>
       size_bytes s2 = size_bytes s - int (the (size_axon s sha))) \<and>
     (del_axon s sha = (Inr False, s3) \<longrightarrow> s3 = s) \<and>
     (put H s byts = (Inr r, s4) \<longrightarrow> metrics_ok s4) \<and>
     (save s sha g = (Inl e, s5) \<and> sum_list (map length (fst g)) < 2 ^ 64 \<longrightarrow>
       sizes s5 = sizes s \<and> file_count s5 = file_count s \<and> size_bytes s5 = size_bytes s)"
proof -
  have hl: "\<And>d. hashlocks s d \<noteq> Some 0" using assms(1) by (simp add: axon_ok_def)
  have oks: "slab_ok (sizes s)" using assms(1) by (simp add: axon_ok_def)
  have save_ok: "metrics_ok t \<and> (has s d \<longrightarrow> t = s) \<and>
       (\<not> has s d \<longrightarrow>
          length (sizes t) = length (sizes s) + 1 \<and> size_axon t d = Some n \<and>
          file_count t = file_count s + 1 \<and> size_bytes t = size_bytes s + int n)"
    if sv: "save s d p = (Inr n, t)" for d p n t
    using save_Inr_cases [OF hl sv]
  proof
    assume "has s d \<and> size_axon s d = Some n \<and> t = s"
    then show ?thesis using assms(2) by simp
  next
    assume a: "\<not> has s d \<and> reqBelowLimit s = None \<and> snd p = None \<and> length (fst p) \<le> 2 ^ 64 \<and>
          n = sum_list (map length (fst p)) \<and> n < 2 ^ 64 \<and>
          t = s\<lparr>blobs := put_chunks d 0 (fst p) (blobs s),
                 axonhist := axonhist s @ [(now s, d, n)],
                 axonseqn := axonseqn s @ [(d, n)],
                 file_count := file_count s + 1,
                 size_bytes := size_bytes s + int n,
                 sizes := slab_put d (be_bytes 8 n) (sizes s)\<rparr>"
    then have new: "slab_get d (sizes s) = None" and n: "n < 2 ^ 64" by (simp_all add: has_def)
    have "metrics_ok t"
      using a metrics_ok_save_new [OF assms(2) new n] by simp
    then show ?thesis
      using a new n
      by (simp add: size_axon_def slab_get_def map_of_slab_put length_slab_put_new
          from_bytes_be_bytes_8)
  qed
  have c1: "save s sha g = (Inr sz, s1) \<longrightarrow>
       metrics_ok s1 \<and>
       (has s sha \<longrightarrow> s1 = s) \<and>
       (\<not> has s sha \<longrightarrow>
          length (sizes s1) = length (sizes s) + 1 \<and> size_axon s1 sha = Some sz \<and>
          file_count s1 = file_count s + 1 \<and> size_bytes s1 = size_bytes s + int sz)"
    using save_ok by blast
  have c23: "(del_axon s sha = (Inr True, s2) \<longrightarrow>
       metrics_ok s2 \<and> length (sizes s2) + 1 = length (sizes s) \<and> \<not> has s2 sha \<and>
       file_count s2 = file_count s - 1 \<and>
       size_bytes s2 = size_bytes s - int (the (size_axon s sha))) \<and>
     (del_axon s sha = (Inr False, s3) \<longrightarrow> s3 = s)"
  proof (cases "slab_get sha (sizes s)")
    case None
    then show ?thesis using del_absent [OF None hl] by simp
  next
    case (Some byts)
    then have "(sha, byts) \<in> set (sizes s)" by (simp add: slab_get_def map_of_SomeD)
    then have ne: "byts \<noteq> []" using assms(1) by (fastforce simp: axon_ok_def)
    have m: "map_of (sizes s) sha = Some byts" using Some by (simp add: slab_get_def)
    have l: "Suc (length (slab_delete sha (sizes s))) = length (sizes s)"
      by (rule slab_delete_present(1) [OF oks m])
    show ?thesis
      using del_present [OF Some ne hl] metrics_ok_del_present [OF assms(2) oks Some] Some l
      by (auto simp: size_axon_def has_def slab_get_def map_of_slab_delete)
  qed
  have c4: "put H s byts = (Inr r, s4) \<longrightarrow> metrics_ok s4"
  proof (cases "has s (H byts)")
    case True
    then show ?thesis using assms(2) by (auto simp: put_present)
  next
    case False
    show ?thesis
    proof
      assume p: "put H s byts = (Inr r, s4)"
      obtain r1 t where sv: "save s (H byts) (UpLoad_genr (UpLoad_write UpLoad_anit byts)) = (r1, t)"
        by (cases "save s (H byts) (UpLoad_genr (UpLoad_write UpLoad_anit byts))")
      have "\<exists>n. r1 = Inr n \<and> t = s4"
        using p False sv
        by (cases r1) (simp_all add: put_def UpLoad_save_def UpLoad_write_anit Let_def)
      then show "metrics_ok s4" using save_ok sv by blast
    qed
  qed
  have c5: "save s sha g = (Inl e, s5) \<and> sum_list (map length (fst g)) < 2 ^ 64 \<longrightarrow>
       sizes s5 = sizes s \<and> file_count s5 = file_count s \<and> size_bytes s5 = size_bytes s"
    using save_Inl_metrics by blast
  show ?thesis using c1 c23 c4 c5 by blast
qed

lemma metrics_ok_anit: "metrics_ok (axon_anit mb mc t)"
  by (simp add: metrics_ok_def)

lemma metrics_ok_ex_abc: "metrics_ok ex_abc"
  by (simp add: ex_abc_eq metrics_ok_def from_bytes_be_bytes_8)

lemma has_ex_abc: "has ex_abc (toy_hash [97, 98, 99])"
  by (simp add: ex_abc_eq has_def slab_get_def)

lemma reqBelowLimit_ex_abc: "reqBelowLimit ex_abc = Some HitLimit"
  by (simp add: ex_abc_eq reqBelowLimit_def)

theorem metrics_consistent_witness:
  "axon_ok (axon_anit None None 0) \<and> metrics_ok (axon_anit None None 0) \<and>
   fst (save (axon_anit None None 0) [1] ([[5, 6]], None)) = Inr 2 \<and>
   metrics_ok (snd (save (axon_anit None None 0) [1] ([[5, 6]], None))) \<and>
   file_count (snd (save (axon_anit None None 0) [1] ([[5, 6]], None))) = 1 \<and>
   size_bytes (snd (save (axon_anit None None 0) [1] ([[5, 6]], None))) = 2 \<and>
   del_axon (axon_anit None None 0) [1] = (Inr False, axon_anit None None 0) \<and>
   fst (put toy_hash (axon_anit None None 0) [1]) = Inr (1, toy_hash [1]) \<and>
   metrics_ok (snd (put toy_hash (axon_anit None None 0) [1])) \<and>
   axon_ok ex_abc \<and> metrics_ok ex_abc \<and>
   fst (del_axon ex_abc (toy_hash [97, 98, 99])) = Inr True \<and>
   metrics_ok (snd (del_axon ex_abc (toy_hash [97, 98, 99]))) \<and>
   file_count (snd (del_axon ex_abc (toy_hash [97, 98, 99]))) = 0 \<and>
   size_bytes (snd (del_axon ex_abc (toy_hash [97, 98, 99]))) = 0 \<and>
   save ex_abc [1] ([[5, 6]], None) = (Inl HitLimit, ex_abc)"
proof -
  let ?s0 = "axon_anit None None 0"
  let ?d = "toy_hash [97, 98, 99]"
  have sv: "fst (save ?s0 [1] ([[5, 6]], None)) = Inr 2"
    by (subst save_new) (simp_all add: reqBelowLimit_def slab_get_def)
  then have sv': "save ?s0 [1] ([[5, 6]], None) = (Inr 2, snd (save ?s0 [1] ([[5, 6]], None)))"
    by (metis prod.collapse)
  have d0: "del_axon ?s0 [1] = (Inr False, ?s0)"
    by (rule del_absent) (simp_all add: slab_get_def)
  have p: "fst (put toy_hash ?s0 [1]) = Inr (1, toy_hash [1])"
    by (subst put_new) (simp_all add: reqBelowLimit_def)
  then have p': "put toy_hash ?s0 [1] = (Inr (1, toy_hash [1]), snd (put toy_hash ?s0 [1]))"
    by (metis prod.collapse)
  have g: "slab_get ?d (sizes ex_abc) = Some (be_bytes 8 3)"
    by (simp add: ex_abc_eq slab_get_def)
  have hl: "hashlocks ex_abc ?d \<noteq> Some 0" by (simp add: ex_abc_eq)
  have d1: "fst (del_axon ex_abc ?d) = Inr True"
    by (subst del_present [OF g _ hl]) simp_all
  then have d1': "del_axon ex_abc ?d = (Inr True, snd (del_axon ex_abc ?d))"
    by (metis prod.collapse)
  have sz: "size_axon ex_abc ?d = Some 3"
    by (simp add: size_axon_def g from_bytes_be_bytes_8)
  have m: "file_count ex_abc = 1" "size_bytes ex_abc = 3" by (simp_all add: ex_abc_eq)
  have lim: "save ex_abc [1] ([[5, 6]], None) = (Inl HitLimit, ex_abc)"
    by (rule save_limit [OF reqBelowLimit_ex_abc])
  have n: "\<not> has ?s0 [1]" by simp
  from metrics_consistent [OF axon_ok_anit metrics_ok_anit, of None None 0 "[1]" "([[5, 6]], None)" 2
      "snd (save ?s0 [1] ([[5, 6]], None))" "snd (del_axon ?s0 [1])" ?s0 toy_hash "[1]"
      "(1, toy_hash [1])" "snd (put toy_hash ?s0 [1])" HitLimit ?s0]
  have a: "metrics_ok (snd (save ?s0 [1] ([[5, 6]], None))) \<and>
      file_count (snd (save ?s0 [1] ([[5, 6]], None))) = 1 \<and>
      size_bytes (snd (save ?s0 [1] ([[5, 6]], None))) = 2 \<and>
      metrics_ok (snd (put toy_hash ?s0 [1]))"
    using sv' p' n by simp
  from metrics_consistent [OF axon_ok_ex_abc metrics_ok_ex_abc, of ?d "([[5, 6]], None)" 0 ex_abc
      "snd (del_axon ex_abc ?d)" ex_abc toy_hash "[1]" "(1, toy_hash [1])" ex_abc HitLimit ex_abc]
  have b: "metrics_ok (snd (del_axon ex_abc ?d)) \<and>
      file_count (snd (del_axon ex_abc ?d)) = 0 \<and> size_bytes (snd (del_axon ex_abc ?d)) = 0"
    using d1' sz m by simp
  show ?thesis
    using a b sv d0 p d1 lim axon_ok_anit metrics_ok_anit axon_ok_ex_abc metrics_ok_ex_abc
    by simp
qed

text \<open>
  C3. Idempotent save. In a well-formed store that accepts the blob (its digest is already
  present, or no configured limit has been reached), \<open>put\<close> of the same bytes \<open>n \<ge> 1\<close>
  times returns the tuple (length, digest) every time; the state after the \<open>n\<close> calls is
  the state after the first, so the chunk table and the counters are written by the first
  call only; there is exactly one size-index entry for the digest; and when the digest was
  new the first call added one entry, 1 to \<open>file:count\<close> and the length to \<open>size:bytes\<close>.
\<close>

theorem put_idempotent:
  assumes ok: "axon_ok s" and len: "length byts < 2 ^ 64"
    and acc: "has s (H byts) \<or> reqBelowLimit s = None" and n: "1 \<le> n"
  shows "\<exists>s1. put H s byts = (Inr (length byts, H byts), s1) \<and>
     puts H s (replicate n byts) = (Inr (replicate n (length byts, H byts)), s1) \<and>
     put H s1 byts = (Inr (length byts, H byts), s1) \<and>
     length (filter (\<lambda>kv. fst kv = H byts) (sizes s1)) = 1 \<and>
     (has s (H byts) \<longrightarrow> s1 = s) \<and>
     (\<not> has s (H byts) \<longrightarrow>
        length (sizes s1) = length (sizes s) + 1 \<and>
        file_count s1 = file_count s + 1 \<and>
        size_bytes s1 = size_bytes s + int (length byts) \<and>
        blobs s1 = put_chunks (H byts) 0 (read_chunks CHUNK_SIZE byts) (blobs s))"
proof -
  obtain m where m: "n = Suc m" using n by (cases n) simp_all
  have hl: "hashlocks s (H byts) \<noteq> Some 0" using ok by (simp add: axon_ok_def)
  have first: "\<exists>s1. put H s byts = (Inr (length byts, H byts), s1) \<and> has s1 (H byts) \<and>
     (has s (H byts) \<longrightarrow> s1 = s) \<and>
     (\<not> has s (H byts) \<longrightarrow>
        length (sizes s1) = length (sizes s) + 1 \<and>
        file_count s1 = file_count s + 1 \<and>
        size_bytes s1 = size_bytes s + int (length byts) \<and>
        blobs s1 = put_chunks (H byts) 0 (read_chunks CHUNK_SIZE byts) (blobs s))"
  proof (cases "has s (H byts)")
    case True
    then show ?thesis by (simp add: put_present)
  next
    case False
    then have lim: "reqBelowLimit s = None" using acc by simp
    have new: "map_of (sizes s) (H byts) = None" using False by (simp add: has_def slab_get_def)
    show ?thesis
      using False new
      by (simp add: put_new [where H = H and byts = byts, OF False lim len hl] has_def
          slab_get_def map_of_slab_put length_slab_put_new)
  qed
  then obtain s1 where s1: "put H s byts = (Inr (length byts, H byts), s1)"
    and h1: "has s1 (H byts)"
    and rest: "(has s (H byts) \<longrightarrow> s1 = s) \<and>
     (\<not> has s (H byts) \<longrightarrow>
        length (sizes s1) = length (sizes s) + 1 \<and>
        file_count s1 = file_count s + 1 \<and>
        size_bytes s1 = size_bytes s + int (length byts) \<and>
        blobs s1 = put_chunks (H byts) 0 (read_chunks CHUNK_SIZE byts) (blobs s))"
    by blast
  have ok1: "axon_ok s1" by (rule axon_ok_put [OF ok s1])
  then have "slab_ok (sizes s1)" by (simp add: axon_ok_def)
  then have one: "length (filter (\<lambda>kv. fst kv = H byts) (sizes s1)) = 1"
    using h1 by (simp add: count_key_slab has_def slab_get_def)
  have all: "puts H s (replicate n byts) = (Inr (replicate n (length byts, H byts)), s1)"
    by (simp add: m s1 puts_present [where H = H and byts = byts, OF h1])
  show ?thesis
    using s1 all put_present [where H = H and byts = byts, OF h1] one rest by blast
qed

theorem put_idempotent_witness:
  "axon_ok (axon_anit None (Some 1) 0) \<and> length [97, 98, 99 :: byte] < 2 ^ 64 \<and>
   reqBelowLimit (axon_anit None (Some 1) 0) = None \<and>
   put toy_hash (axon_anit None (Some 1) 0) [97, 98, 99] = (Inr (3, toy_hash [97, 98, 99]), ex_abc) \<and>
   puts toy_hash (axon_anit None (Some 1) 0) [[97, 98, 99], [97, 98, 99], [97, 98, 99]] =
     (Inr [(3, toy_hash [97, 98, 99]), (3, toy_hash [97, 98, 99]), (3, toy_hash [97, 98, 99])],
      ex_abc) \<and>
   file_count ex_abc = 1 \<and> size_bytes ex_abc = 3 \<and> length (sizes ex_abc) = 1"
proof -
  let ?s0 = "axon_anit None (Some 1) 0"
  have lim: "reqBelowLimit ?s0 = None" by (simp add: reqBelowLimit_def)
  have len: "length [97, 98, 99 :: byte] < 2 ^ 64" by simp
  have three: "replicate 3 [97, 98, 99 :: byte] = [[97, 98, 99], [97, 98, 99], [97, 98, 99]]"
    "replicate 3 (3 :: nat, toy_hash [97, 98, 99]) =
       [(3, toy_hash [97, 98, 99]), (3, toy_hash [97, 98, 99]), (3, toy_hash [97, 98, 99])]"
    by (simp_all add: numeral_3_eq_3)
  have m: "file_count ex_abc = 1" "size_bytes ex_abc = 3" "length (sizes ex_abc) = 1"
    by (simp_all add: ex_abc_eq)
  from put_idempotent [where H = toy_hash and byts = "[97, 98, 99]" and n = 3,
      OF axon_ok_anit len disjI2 [OF lim]]
  obtain s1 where "put toy_hash ?s0 [97, 98, 99] = (Inr (3, toy_hash [97, 98, 99]), s1)"
    and "puts toy_hash ?s0 (replicate 3 [97, 98, 99]) =
           (Inr (replicate 3 (3, toy_hash [97, 98, 99])), s1)"
    by auto
  moreover from this(1) have "s1 = ex_abc" by (simp add: ex_abc_def)
  ultimately show ?thesis
    using lim axon_ok_anit m by (simp add: three)
qed

lemma chunk_entries_key:
  assumes "(k, v) \<in> set (chunk_entries sha i cs)"
  shows "\<exists>j. i \<le> j \<and> j < i + length cs \<and> k = sha @ be_bytes 8 j"
proof -
  have "k \<in> set (map fst (chunk_entries sha i cs))" using assms by force
  then show ?thesis unfolding map_fst_chunk_entries by auto
qed

lemma set_put_chunks_subset:
  assumes "slab_ok db" "i + length cs \<le> 2 ^ 64" "(k, v) \<in> set (put_chunks sha i cs db)"
  shows "(k, v) \<in> set db \<or> (k, v) \<in> set (chunk_entries sha i cs)"
proof -
  have "map_of (put_chunks sha i cs db) k = Some v"
    using assms(3) by (simp add: in_slab_iff [OF slab_ok_put_chunks [OF assms(1)]])
  then have "(map_of db ++ map_of (chunk_entries sha i cs)) k = Some v"
    by (simp add: map_of_put_chunks [OF assms(2)])
  then have "map_of db k = Some v \<or> map_of (chunk_entries sha i cs) k = Some v"
    by (auto simp: map_add_Some_iff)
  then show ?thesis by (auto dest: map_of_SomeD)
qed

lemma get_after_put_chunks:
  assumes ok: "slab_ok (blobs s)" and len: "length cs \<le> 2 ^ 64"
    and within: "chunks_within s sha (length cs)"
  shows "map snd (scanByPref sha (put_chunks sha 0 cs (blobs s))) = cs"
proof -
  have "\<forall>kv \<in> set (blobs s). prefix sha (fst kv) \<longrightarrow>
          (\<exists>j. 0 \<le> j \<and> j < 0 + length cs \<and> fst kv = sha @ be_bytes 8 j)"
    using within unfolding chunks_within_def scanByPref_def by fastforce
  then have "scanByPref sha (put_chunks sha 0 cs (blobs s)) = chunk_entries sha 0 cs"
    using len by (intro scanByPref_put_chunks ok) simp_all
  then show ?thesis by (simp add: map_snd_chunk_entries)
qed

text \<open>
  The round trip from its local conditions: a digest that is present holds this very
  blob, and chunks under an absent digest lie only at ordinals the blob overwrites.
\<close>

lemma put_get_local:
  assumes ok: "axon_ok s" and len: "length byts < 2 ^ 64"
    and acc: "has s (H byts) \<or> reqBelowLimit s = None"
    and present: "has s (H byts) \<longrightarrow> blob_stored s (H byts) byts"
    and absent: "\<not> has s (H byts) \<longrightarrow>
                   chunks_within s (H byts) (length (read_chunks CHUNK_SIZE byts))"
  shows "\<exists>s' chunks. put H s byts = (Inr (length byts, H byts), s') \<and>
     get s' (H byts) = Inr chunks \<and> concat chunks = byts \<and>
     size_axon s' (H byts) = Some (length byts) \<and>
     (byts = [] \<longrightarrow> chunks = []) \<and>
     blob_stored s' (H byts) byts"
proof (cases "has s (H byts)")
  case True
  then have st: "blob_stored s (H byts) byts" using present by simp
  have "get s (H byts) = Inr (read_chunks CHUNK_SIZE byts)"
    using True st by (simp add: get_def blob_stored_def)
  moreover have "size_axon s (H byts) = Some (length byts)"
    using st len by (simp add: size_axon_def blob_stored_def from_bytes_be_bytes_8)
  ultimately show ?thesis
    using st by (auto simp: put_present [where H = H and byts = byts, OF True]
        concat_read_chunks [OF CHUNK_SIZE_pos])
next
  case False
  let ?cs = "read_chunks CHUNK_SIZE byts"
  let ?s' = "s\<lparr>blobs := put_chunks (H byts) 0 ?cs (blobs s),
        axonhist := axonhist s @ [(now s, H byts, length byts)],
        axonseqn := axonseqn s @ [(H byts, length byts)],
        file_count := file_count s + 1,
        size_bytes := size_bytes s + int (length byts),
        sizes := slab_put (H byts) (be_bytes 8 (length byts)) (sizes s)\<rparr>"
  have lim: "reqBelowLimit s = None" using acc False by simp
  have hl: "hashlocks s (H byts) \<noteq> Some 0" using ok by (simp add: axon_ok_def)
  have okb: "slab_ok (blobs s)" using ok by (simp add: axon_ok_def)
  have p: "put H s byts = (Inr (length byts, H byts), ?s')"
    by (rule put_new [where H = H and byts = byts, OF False lim len hl])
  have n: "length ?cs \<le> 2 ^ 64"
    using length_read_chunks_le [of CHUNK_SIZE byts] len by simp
  have within: "chunks_within s (H byts) (length ?cs)" using absent False by simp
  have scan: "map snd (scanByPref (H byts) (blobs ?s')) = ?cs"
    using get_after_put_chunks [OF okb n within] by simp
  have idx: "slab_get (H byts) (sizes ?s') = Some (be_bytes 8 (length byts))"
    by (simp add: slab_get_def map_of_slab_put)
  have g: "get ?s' (H byts) = Inr ?cs"
    using scan idx by (simp add: get_def has_def)
  have sz: "size_axon ?s' (H byts) = Some (length byts)"
    using idx len by (simp add: size_axon_def from_bytes_be_bytes_8)
  have st: "blob_stored ?s' (H byts) byts"
    using scan idx by (simp add: blob_stored_def)
  show ?thesis
    using p g sz st concat_read_chunks [OF CHUNK_SIZE_pos, of byts] by auto
qed

subsection \<open>Stores of uploads\<close>

lemma prefix_same_length: "prefix a k \<Longrightarrow> prefix b k \<Longrightarrow> length a = length b \<Longrightarrow> a = b"
  by (auto simp: prefix_def)

lemma chunk_entries_mem:
  assumes "(k, v) \<in> set (chunk_entries sha 0 cs)"
  shows "\<exists>j < length cs. k = sha @ be_bytes 8 j \<and> v = cs ! j"
  using assms by (auto simp: chunk_entries_def set_zip)

lemma scanByPref_put_chunks_other:
  assumes ok: "slab_ok db" and len: "length cs \<le> 2 ^ 64"
    and same: "length d' = length d" and diff: "d' \<noteq> d"
  shows "scanByPref d' (put_chunks d 0 cs db) = scanByPref d' db"
proof (rule slab_eqI)
  have len0: "0 + length cs \<le> 2 ^ 64" using len by simp
  have okp: "slab_ok (put_chunks d 0 cs db)" by (rule slab_ok_put_chunks [OF ok])
  show "slab_ok (scanByPref d' (put_chunks d 0 cs db))"
    unfolding scanByPref_def by (rule slab_ok_filter [OF okp])
  show "slab_ok (scanByPref d' db)"
    unfolding scanByPref_def by (rule slab_ok_filter [OF ok])
  have notnew: "\<not> prefix d' k" if "(k, v) \<in> set (chunk_entries d 0 cs)" for k v
  proof
    assume p: "prefix d' k"
    have "prefix d k" using that by (rule prefix_chunk_entries)
    then have "d' = d" using p same by (intro prefix_same_length [of d' k d])
    then show False using diff by simp
  qed
  show "set (scanByPref d' (put_chunks d 0 cs db)) = set (scanByPref d' db)"
  proof (rule set_eqI)
    fix kv :: "bytes \<times> bytes"
    obtain k v where kv: "kv = (k, v)" by (cases kv)
    show "(kv \<in> set (scanByPref d' (put_chunks d 0 cs db))) = (kv \<in> set (scanByPref d' db))"
    proof (cases "prefix d' k")
      case False
      then show ?thesis by (simp add: kv scanByPref_def)
    next
      case True
      have none: "map_of (chunk_entries d 0 cs) k = None"
      proof (cases "map_of (chunk_entries d 0 cs) k")
        case None
        then show ?thesis .
      next
        case (Some w)
        then have "(k, w) \<in> set (chunk_entries d 0 cs)" by (rule map_of_SomeD)
        then show ?thesis using notnew True by blast
      qed
      have "map_of (put_chunks d 0 cs db) k = map_of db k"
        by (simp add: map_of_put_chunks [OF len0] map_add_def none)
      then show ?thesis
        using True by (simp add: kv scanByPref_def in_slab_iff [OF okp] in_slab_iff [OF ok])
    qed
  qed
qed

lemma store_of_anit: "store_of H U (axon_anit mb mc t)"
  by (simp add: store_of_def axon_ok_anit)

lemma store_of_mono: "store_of H U s \<Longrightarrow> U \<subseteq> V \<Longrightarrow> store_of H V s"
  unfolding store_of_def by (meson subsetD)

lemma store_of_present:
  assumes inv: "store_of H U s" and hok: "hash_ok H U" and B: "byts \<in> U"
    and h: "has s (H byts)"
  shows "blob_stored s (H byts) byts"
proof -
  obtain v where "slab_get (H byts) (sizes s) = Some v" using h by (auto simp: has_def)
  then have "(H byts, v) \<in> set (sizes s)" by (simp add: slab_get_def map_of_SomeD)
  then obtain B' where B': "B' \<in> U" "H byts = H B'" "blob_stored s (H B') B'"
    using inv by (fastforce simp: store_of_def)
  have "B' = byts" using hok B B'(1,2) by (auto simp: hash_ok_def inj_on_def)
  then show ?thesis using B'(3) by simp
qed

lemma store_of_chunks_within:
  assumes inv: "store_of H U s" and hok: "hash_ok H U" and B: "byts \<in> U"
  shows "chunks_within s (H byts) (length (read_chunks CHUNK_SIZE byts))"
  unfolding chunks_within_def
proof
  fix kv assume "kv \<in> set (scanByPref (H byts) (blobs s))"
  then have mem: "kv \<in> set (blobs s)" and pre: "prefix (H byts) (fst kv)"
    by (auto simp: scanByPref_def)
  from mem inv obtain B' j where B': "B' \<in> U" and j: "j < length (read_chunks CHUNK_SIZE B')"
    and kv: "kv = (H B' @ be_bytes 8 j, read_chunks CHUNK_SIZE B' ! j)"
    unfolding store_of_def by blast
  have "prefix (H B') (fst kv)" by (simp add: kv)
  moreover have "length (H byts) = length (H B')" using hok B B' by (simp add: hash_ok_def)
  ultimately have "H byts = H B'" using pre by (intro prefix_same_length [of "H byts" "fst kv"])
  then have "byts = B'" using hok B B' by (auto simp: hash_ok_def inj_on_def)
  then show "\<exists>j < length (read_chunks CHUNK_SIZE byts). fst kv = H byts @ be_bytes 8 j"
    using j kv by auto
qed

lemma scanByPref_filter_other:
  assumes "length d' = length d" "d' \<noteq> d"
  shows "scanByPref d' (filter (\<lambda>kv. \<not> prefix d (fst kv)) db) = scanByPref d' db"
proof -
  have "\<And>kv. prefix d' (fst kv) \<Longrightarrow> \<not> prefix d (fst kv)"
    using assms prefix_same_length by blast
  then show ?thesis
    by (auto simp: scanByPref_def case_prod_beta intro: filter_cong)
qed

lemma in_sizes_has: "(k, v) \<in> set (sizes s) \<Longrightarrow> has s k"
  by (force simp: has_def slab_get_def map_of_eq_None_iff)

text \<open>Writing the first chunks of a blob of \<open>U\<close> under its absent digest.\<close>

lemma store_of_chunks_written:
  assumes inv: "store_of H U s" and hok: "hash_ok H U" and B: "byts \<in> U"
    and absent: "\<not> has s (H byts)"
    and t: "sizes t = sizes s" "blobs t = put_chunks (H byts) 0 (take k (read_chunks CHUNK_SIZE byts)) (blobs s)"
  shows "(\<forall>kv \<in> set (sizes t). \<exists>B \<in> U. fst kv = H B \<and> blob_stored t (H B) B) \<and>
      (\<forall>kv \<in> set (blobs t). \<exists>B \<in> U. \<exists>j < length (read_chunks CHUNK_SIZE B).
          kv = (H B @ be_bytes 8 j, read_chunks CHUNK_SIZE B ! j))"
proof -
  let ?cs = "take k (read_chunks CHUNK_SIZE byts)"
  have okb: "slab_ok (blobs s)" using inv by (simp add: store_of_def axon_ok_def)
  have lenB: "length byts < 2 ^ 64" using hok B by (simp add: hash_ok_def)
  have n: "length ?cs \<le> 2 ^ 64"
    using length_read_chunks_le [of CHUNK_SIZE byts] lenB by simp
  have a: "\<exists>B \<in> U. fst kv = H B \<and> blob_stored t (H B) B" if kv: "kv \<in> set (sizes t)" for kv
  proof -
    from kv t(1) inv obtain B' where B': "B' \<in> U" "fst kv = H B'" "blob_stored s (H B') B'"
      unfolding store_of_def by fastforce
    have "(fst kv, snd kv) \<in> set (sizes s)" using kv t(1) by simp
    then have "has s (fst kv)" by (rule in_sizes_has)
    then have "has s (H B')" using B'(2) by simp
    then have ne: "H B' \<noteq> H byts" using absent by auto
    have "length (H B') = length (H byts)" using hok B B'(1) by (simp add: hash_ok_def)
    then have "scanByPref (H B') (blobs t) = scanByPref (H B') (blobs s)"
      unfolding t(2) by (intro scanByPref_put_chunks_other okb n ne)
    then have "blob_stored t (H B') B'" using B'(3) t(1) by (simp add: blob_stored_def)
    then show ?thesis using B' by blast
  qed
  have b: "\<exists>B \<in> U. \<exists>j < length (read_chunks CHUNK_SIZE B).
          kv = (H B @ be_bytes 8 j, read_chunks CHUNK_SIZE B ! j)"
    if kv: "kv \<in> set (blobs t)" for kv
  proof -
    obtain k' v where eq: "kv = (k', v)" by (cases kv)
    have n0: "0 + length ?cs \<le> 2 ^ 64" using n by simp
    from set_put_chunks_subset [OF okb n0, of k' v "H byts"] kv
    have "(k', v) \<in> set (blobs s) \<or> (k', v) \<in> set (chunk_entries (H byts) 0 ?cs)"
      by (simp add: eq t(2))
    then show ?thesis
    proof
      assume "(k', v) \<in> set (blobs s)"
      then show ?thesis using inv unfolding store_of_def eq by blast
    next
      assume "(k', v) \<in> set (chunk_entries (H byts) 0 ?cs)"
      from chunk_entries_mem [OF this]
      obtain j where j: "j < length ?cs" "k' = H byts @ be_bytes 8 j" "v = ?cs ! j" by blast
      then have "j < length (read_chunks CHUNK_SIZE byts)"
        and "v = read_chunks CHUNK_SIZE byts ! j" by simp_all
      then show ?thesis using j(2) B unfolding eq by blast
    qed
  qed
  show ?thesis using a b by blast
qed

lemma store_of_save_interrupted:
  assumes inv: "store_of H U s" and hok: "hash_ok H U" and B: "byts \<in> U"
    and sv: "save s (H byts) (take k (read_chunks CHUNK_SIZE byts), Some e) = (r, s')"
  shows "store_of H U s'"
proof -
  have ok: "axon_ok s" using inv by (simp add: store_of_def)
  then have hl: "hashlocks s (H byts) \<noteq> Some 0" by (simp add: axon_ok_def)
  show ?thesis
  proof (cases "reqBelowLimit s")
    case (Some x)
    then show ?thesis using sv inv by (simp add: save_limit)
  next
    case None
    show ?thesis
    proof (cases "slab_get (H byts) (sizes s)")
      case (Some v)
      then show ?thesis using sv inv save_present [OF None Some hl] by simp
    next
      case none: None
      have lenB: "length byts < 2 ^ 64" using hok B by (simp add: hash_ok_def)
      have n: "length (take k (read_chunks CHUNK_SIZE byts)) \<le> 2 ^ 64"
        using length_read_chunks_le [of CHUNK_SIZE byts] lenB by simp
      have absent: "\<not> has s (H byts)" using none by (simp add: has_def)
      from save_fail [OF None none n, of e] sv
      have s': "s' = s\<lparr>hashlocks := (hashlocks s)(H byts \<mapsto> (case hashlocks s (H byts) of None \<Rightarrow> 0 | Some c \<Rightarrow> c) + 1),
        blobs := put_chunks (H byts) 0 (take k (read_chunks CHUNK_SIZE byts)) (blobs s)\<rparr>"
        and r: "r = Inl e"
        by simp_all
      have "axon_ok s'" using axon_ok_save_Inl [OF ok sv [unfolded r]] .
      moreover have "(\<forall>kv \<in> set (sizes s'). \<exists>B \<in> U. fst kv = H B \<and> blob_stored s' (H B) B) \<and>
        (\<forall>kv \<in> set (blobs s'). \<exists>B \<in> U. \<exists>j < length (read_chunks CHUNK_SIZE B).
          kv = (H B @ be_bytes 8 j, read_chunks CHUNK_SIZE B ! j))"
        by (rule store_of_chunks_written [OF inv hok B absent, where k = k]) (simp_all add: s')
      ultimately show ?thesis by (simp add: store_of_def)
    qed
  qed
qed

lemma store_of_put:
  assumes inv: "store_of H U s" and hok: "hash_ok H U" and B: "byts \<in> U"
    and p: "put H s byts = (r, s')"
  shows "store_of H U s'"
proof (cases "has s (H byts)")
  case True
  then show ?thesis using p inv by (simp add: put_present [where H = H and byts = byts])
next
  case False
  have ok: "axon_ok s" using inv by (simp add: store_of_def)
  then have hl: "hashlocks s (H byts) \<noteq> Some 0" by (simp add: axon_ok_def)
  have oks: "slab_ok (sizes s)" and okb: "slab_ok (blobs s)" using ok by (simp_all add: axon_ok_def)
  have lenB: "length byts < 2 ^ 64" using hok B by (simp add: hash_ok_def)
  show ?thesis
  proof (cases "reqBelowLimit s")
    case (Some x)
    then show ?thesis
      using p inv by (simp add: put_limit [where H = H and byts = byts, OF False Some])
  next
    case None
    let ?cs = "read_chunks CHUNK_SIZE byts"
    let ?t = "s\<lparr>blobs := put_chunks (H byts) 0 ?cs (blobs s)\<rparr>"
    from put_new [where H = H and byts = byts, OF False None lenB hl] p
    have s': "s' = s\<lparr>blobs := put_chunks (H byts) 0 ?cs (blobs s),
        axonhist := axonhist s @ [(now s, H byts, length byts)],
        axonseqn := axonseqn s @ [(H byts, length byts)],
        file_count := file_count s + 1,
        size_bytes := size_bytes s + int (length byts),
        sizes := slab_put (H byts) (be_bytes 8 (length byts)) (sizes s)\<rparr>"
      by simp
    have ok': "axon_ok s'" by (rule axon_ok_put [OF ok p])
    have all: "take (length ?cs) ?cs = ?cs" by simp
    have mid: "(\<forall>kv \<in> set (sizes ?t). \<exists>B \<in> U. fst kv = H B \<and> blob_stored ?t (H B) B) \<and>
        (\<forall>kv \<in> set (blobs ?t). \<exists>B \<in> U. \<exists>j < length (read_chunks CHUNK_SIZE B).
          kv = (H B @ be_bytes 8 j, read_chunks CHUNK_SIZE B ! j))"
      by (rule store_of_chunks_written [OF inv hok B False, where k = "length ?cs"])
        (simp_all add: all)
    have n: "length ?cs \<le> 2 ^ 64"
      using length_read_chunks_le [of CHUNK_SIZE byts] lenB by simp
    have within: "chunks_within s (H byts) (length ?cs)"
      by (rule store_of_chunks_within [OF inv hok B])
    have scan: "map snd (scanByPref (H byts) (blobs s')) = ?cs"
      using get_after_put_chunks [OF okb n within] by (simp add: s')
    have own: "blob_stored s' (H byts) byts"
      using scan by (simp add: blob_stored_def s' slab_get_def map_of_slab_put)
    have a: "\<exists>B \<in> U. fst kv = H B \<and> blob_stored s' (H B) B" if kv: "kv \<in> set (sizes s')" for kv
    proof (cases "fst kv = H byts")
      case True
      then show ?thesis using own B by auto
    next
      case ne: False
      have "kv \<in> set (sizes s)"
        using kv ne by (auto simp: s' set_slab_put [OF oks])
      with mid obtain B' where B': "B' \<in> U" "fst kv = H B'" "blob_stored ?t (H B') B'"
        by fastforce
      have "blob_stored s' (H B') B'"
        using B'(2,3) ne by (simp add: blob_stored_def s' slab_get_def map_of_slab_put)
      then show ?thesis using B' by blast
    qed
    have b: "\<forall>kv \<in> set (blobs s'). \<exists>B \<in> U. \<exists>j < length (read_chunks CHUNK_SIZE B).
          kv = (H B @ be_bytes 8 j, read_chunks CHUNK_SIZE B ! j)"
      using mid by (simp add: s')
    show ?thesis using ok' a b by (simp add: store_of_def)
  qed
qed

lemma store_of_del:
  assumes inv: "store_of H U s" and hok: "hash_ok H U" and d: "del_axon s sha = (r, s')"
  shows "store_of H U s'"
proof -
  have ok: "axon_ok s" using inv by (simp add: store_of_def)
  then have hl: "hashlocks s sha \<noteq> Some 0" by (simp add: axon_ok_def)
  show ?thesis
  proof (cases "slab_get sha (sizes s)")
    case None
    then show ?thesis using d inv del_absent [OF None hl] by simp
  next
    case (Some v)
    then have mem: "(sha, v) \<in> set (sizes s)" by (simp add: slab_get_def map_of_SomeD)
    then have ne: "v \<noteq> []" using ok by (fastforce simp: axon_ok_def)
    from mem inv obtain Bd where Bd: "Bd \<in> U" "sha = H Bd"
      unfolding store_of_def by fastforce
    from del_present [OF Some ne hl] d
    have s': "s' = s\<lparr>sizes := slab_delete sha (sizes s),
        file_count := file_count s - 1,
        size_bytes := size_bytes s - int (from_bytes v),
        blobs := filter (\<lambda>kv. \<not> prefix sha (fst kv)) (blobs s)\<rparr>"
      by simp
    have ok': "axon_ok s'" by (rule axon_ok_del [OF ok d])
    have a: "\<exists>B \<in> U. fst kv = H B \<and> blob_stored s' (H B) B" if kv: "kv \<in> set (sizes s')" for kv
    proof -
      have in_s: "kv \<in> set (sizes s)" and other: "fst kv \<noteq> sha"
        using kv by (auto simp: s' slab_delete_def)
      from in_s inv obtain B' where B': "B' \<in> U" "fst kv = H B'" "blob_stored s (H B') B'"
        unfolding store_of_def by fastforce
      have len: "length (H B') = length sha" using hok B'(1) Bd by (simp add: hash_ok_def)
      have neq: "H B' \<noteq> sha" using other B'(2) by simp
      have "scanByPref (H B') (blobs s') = scanByPref (H B') (blobs s)"
        unfolding s' using scanByPref_filter_other [OF len neq] by simp
      then have "blob_stored s' (H B') B'"
        using B'(3) neq by (simp add: blob_stored_def s' slab_get_def map_of_slab_delete)
      then show ?thesis using B' by blast
    qed
    have b: "\<forall>kv \<in> set (blobs s'). \<exists>B \<in> U. \<exists>j < length (read_chunks CHUNK_SIZE B).
          kv = (H B @ be_bytes 8 j, read_chunks CHUNK_SIZE B ! j)"
      using inv by (simp add: s' store_of_def)
    show ?thesis using ok' a b by (simp add: store_of_def)
  qed
qed

lemma length_toy_hash: "length (toy_hash byts) = 32"
  by (simp add: toy_hash_def)

lemma prefix_self_append: "prefix d (d @ x)"
  by (simp add: prefix_def)

lemma ex_orphan_eq:
  "ex_orphan = (axon_anit None None 0)
     \<lparr>hashlocks := [toy_hash [9] \<mapsto> 1],
      blobs := [(toy_hash [9] @ be_bytes 8 0, [9]), (toy_hash [9] @ be_bytes 8 1, [3])]\<rparr>"
proof -
  let ?s0 = "axon_anit None None 0"
  have lim: "reqBelowLimit ?s0 = None" by (simp add: reqBelowLimit_def)
  have none: "slab_get (toy_hash [9]) (sizes ?s0) = None" by (simp add: slab_get_def)
  have len: "length [[9], [3 :: byte]] \<le> 2 ^ 64" by simp
  have one: "Suc 0 = 1" by simp
  show ?thesis
    unfolding ex_orphan_def
    by (simp add: save_fail [OF lim none len] be_bytes_8_0 one be_bytes_8_1 del: One_nat_def)
qed

text \<open>
  C1, as the code has it. Round-trip in a store of uploads. Let the store hold only
  uploads of blobs of a set \<open>U\<close> on which the hash function has no collision
  (\<open>store_of\<close>: the empty store is one, and \<open>put\<close>, \<open>del_\<close> and an interrupted upload of
  blobs of \<open>U\<close> keep it one), and let it accept the blob (its digest already present, or
  no configured limit reached). Then for every blob of \<open>U\<close>, \<open>put\<close> returns
  (length, digest); afterwards the chunks \<open>get\<close> yields for the digest concatenate to the
  blob and \<open>size\<close> is its length; for the empty blob \<open>get\<close> yields no chunk; and the
  store is again a store of uploads of \<open>U\<close>.
\<close>

theorem put_get_roundtrip:
  assumes inv: "store_of H U s" and hok: "hash_ok H U" and B: "byts \<in> U"
    and acc: "has s (H byts) \<or> reqBelowLimit s = None"
  shows "\<exists>s' chunks. put H s byts = (Inr (length byts, H byts), s') \<and>
     get s' (H byts) = Inr chunks \<and> concat chunks = byts \<and>
     size_axon s' (H byts) = Some (length byts) \<and>
     (byts = [] \<longrightarrow> chunks = []) \<and>
     store_of H U s'"
proof -
  have ok: "axon_ok s" using inv by (simp add: store_of_def)
  have len: "length byts < 2 ^ 64" using hok B by (simp add: hash_ok_def)
  have present: "has s (H byts) \<longrightarrow> blob_stored s (H byts) byts"
    using store_of_present [OF inv hok B] by blast
  have absent: "\<not> has s (H byts) \<longrightarrow>
      chunks_within s (H byts) (length (read_chunks CHUNK_SIZE byts))"
    using store_of_chunks_within [OF inv hok B] by blast
  from put_get_local [where H = H and byts = byts, OF ok len acc present absent]
  obtain s' chunks where p: "put H s byts = (Inr (length byts, H byts), s')"
    and r: "get s' (H byts) = Inr chunks" "concat chunks = byts"
      "size_axon s' (H byts) = Some (length byts)" "byts = [] \<longrightarrow> chunks = []"
    by blast
  have "store_of H U s'" by (rule store_of_put [OF inv hok B p])
  then show ?thesis using p r by blast
qed

theorem put_get_roundtrip_witness:
  "hash_ok toy_hash {[], [97, 98, 99]} \<and>
   store_of toy_hash {[], [97, 98, 99]} (axon_anit None None 0) \<and>
   reqBelowLimit (axon_anit None None 0) = None \<and>
   fst (put toy_hash (axon_anit None None 0) [97, 98, 99]) = Inr (3, toy_hash [97, 98, 99]) \<and>
   get (snd (put toy_hash (axon_anit None None 0) [97, 98, 99])) (toy_hash [97, 98, 99])
     = Inr [[97, 98, 99]] \<and>
   size_axon (snd (put toy_hash (axon_anit None None 0) [97, 98, 99])) (toy_hash [97, 98, 99])
     = Some 3 \<and>
   fst (put toy_hash (axon_anit None None 0) []) = Inr (0, toy_hash []) \<and>
   store_of toy_hash {[], [97, 98, 99]} ex_zero \<and>
   get ex_zero (toy_hash []) = Inr [] \<and> size_axon ex_zero (toy_hash []) = Some 0 \<and>
   has ex_zero (toy_hash []) \<and>
   put toy_hash ex_zero [] = (Inr (0, toy_hash []), ex_zero)"
proof -
  let ?s0 = "axon_anit None None 0"
  let ?B = "[97, 98, 99] :: bytes"
  let ?U = "{[], ?B}"
  have "toy_hash [] ! 0 \<noteq> toy_hash ?B ! 0" by (simp add: toy_hash_def)
  then have "toy_hash [] \<noteq> toy_hash ?B" by metis
  then have hok: "hash_ok toy_hash ?U"
    by (simp add: hash_ok_def length_toy_hash)
  have inv: "store_of toy_hash ?U ?s0" by (rule store_of_anit)
  have lim: "reqBelowLimit ?s0 = None" by (simp add: reqBelowLimit_def)
  have cs: "read_chunks CHUNK_SIZE ?B = [?B]"
    by (simp add: read_chunks_small CHUNK_SIZE_def mebibyte_def)
  from put_get_roundtrip [where H = toy_hash and byts = ?B, OF inv hok _ disjI2 [OF lim]]
  obtain s' chunks where p: "put toy_hash ?s0 ?B = (Inr (3, toy_hash ?B), s')"
    and g: "get s' (toy_hash ?B) = Inr chunks" and c: "concat chunks = ?B"
    and sz: "size_axon s' (toy_hash ?B) = Some 3"
    by auto
  have "get s' (toy_hash ?B) = Inr [?B]"
  proof -
    have "has s' (toy_hash ?B)" using g by (simp add: get_def split: if_splits)
    then have "blob_stored s' (toy_hash ?B) ?B"
      using store_of_present [where H = toy_hash and byts = ?B and s = s' and U = ?U, OF _ hok]
        store_of_put [OF inv hok _ p] by simp
    then show ?thesis using g by (simp add: get_def blob_stored_def cs split: if_splits)
  qed
  then have a: "fst (put toy_hash ?s0 ?B) = Inr (3, toy_hash ?B) \<and>
      get (snd (put toy_hash ?s0 ?B)) (toy_hash ?B) = Inr [?B] \<and>
      size_axon (snd (put toy_hash ?s0 ?B)) (toy_hash ?B) = Some 3"
    using p sz by simp
  from put_get_roundtrip [where H = toy_hash and byts = "[]", OF inv hok _ disjI2 [OF lim]]
  have b: "fst (put toy_hash ?s0 []) = Inr (0, toy_hash []) \<and>
      store_of toy_hash ?U ex_zero \<and>
      get ex_zero (toy_hash []) = Inr [] \<and> size_axon ex_zero (toy_hash []) = Some 0"
    by (auto simp: ex_zero_def)
  then have h: "has ex_zero (toy_hash [])" by (simp add: get_def split: if_splits)
  from put_get_roundtrip [where H = toy_hash and byts = "[]" and s = ex_zero and U = ?U,
      OF _ hok _ disjI1 [OF h]] b
  have c': "put toy_hash ex_zero [] = (Inr (0, toy_hash []), ex_zero)"
    using put_present [where H = toy_hash and byts = "[]", OF h] by simp
  show ?thesis using hok inv lim a b h c' by simp
qed

text \<open>
  C1 as stated fails: \<open>save\<close> does not check what its producer yields and \<open>get\<close> yields
  every chunk under the digest. After a \<open>save\<close> under the digest of the blob \<open>[9]\<close> that
  wrote the chunks \<open>[9]\<close> and \<open>[3]\<close> and was cancelled, \<open>put\<close> of \<open>[9]\<close> returns
  (1, digest), and \<open>get\<close> then yields \<open>[9]\<close> and \<open>[3]\<close>, which do not concatenate to the
  blob.
\<close>

theorem put_get_orphan_counterexample:
  "fst (put toy_hash ex_orphan [9]) = Inr (1, toy_hash [9]) \<and>
   get (snd (put toy_hash ex_orphan [9])) (toy_hash [9]) = Inr [[9], [3]] \<and>
   concat [[9], [3 :: byte]] \<noteq> [9]"
proof -
  have new: "\<not> has ex_orphan (toy_hash [9])"
    by (simp add: ex_orphan_eq has_def slab_get_def)
  have lim: "reqBelowLimit ex_orphan = None" by (simp add: ex_orphan_eq reqBelowLimit_def)
  have len: "length [9 :: byte] < 2 ^ 64" by simp
  have hl: "hashlocks ex_orphan (toy_hash [9]) \<noteq> Some 0" by (simp add: ex_orphan_eq)
  have cs: "read_chunks CHUNK_SIZE [9 :: byte] = [[9]]"
    by (simp add: read_chunks_small CHUNK_SIZE_def mebibyte_def)
  have b: "slab_put (toy_hash [9] @ be_bytes 8 0) [9] (blobs ex_orphan) =
      [(toy_hash [9] @ be_bytes 8 0, [9]), (toy_hash [9] @ be_bytes 8 1, [3])]"
    by (simp add: ex_orphan_eq)
  show ?thesis
    by (simp add: put_new [where H = toy_hash and byts = "[9]", OF new lim len hl] cs b
        get_def has_def slab_get_def map_of_slab_put scanByPref_def prefix_self_append)
qed

text \<open>
  C8. Partial-save atomicity. In a well-formed store below its limits, let the producer
  passed to \<open>save\<close> for an absent digest raise \<open>e\<close> after yielding the chunks \<open>cs\<close>. Then
  \<open>save\<close> raises \<open>e\<close>; the size-index, the sequence, the history and both counters are
  unchanged, \<open>has\<close> stays false, and only the chunks \<open>cs\<close> have been written. A later
  complete \<open>save\<close> for the digest returns the size, makes \<open>has\<close> true and counts the blob
  once; when it yields at least as many chunks as the interrupted one (and nothing else
  was left under the digest), \<open>get\<close> yields exactly its chunks.
\<close>

theorem partial_save_atomic:
  assumes ok: "axon_ok s" and lim: "reqBelowLimit s = None" and new: "\<not> has s sha"
    and len: "length cs \<le> 2 ^ 64"
  shows "\<exists>s'. save s sha (cs, Some e) = (Inl e, s') \<and>
     sizes s' = sizes s \<and> axonseqn s' = axonseqn s \<and> axonhist s' = axonhist s \<and>
     file_count s' = file_count s \<and> size_bytes s' = size_bytes s \<and> \<not> has s' sha \<and>
     blobs s' = put_chunks sha 0 cs (blobs s) \<and>
     (length cs' \<le> 2 ^ 64 \<and> sum_list (map length cs') < 2 ^ 64 \<longrightarrow>
        (\<exists>s''. save s' sha (cs', None) = (Inr (sum_list (map length cs')), s'') \<and>
           has s'' sha \<and> size_axon s'' sha = Some (sum_list (map length cs')) \<and>
           file_count s'' = file_count s + 1 \<and>
           size_bytes s'' = size_bytes s + int (sum_list (map length cs')) \<and>
           axonseqn s'' = axonseqn s @ [(sha, sum_list (map length cs'))] \<and>
           (length cs \<le> length cs' \<and> chunks_within s sha (length cs') \<longrightarrow>
              get s'' sha = Inr cs')))"
proof -
  let ?s' = "s\<lparr>hashlocks := (hashlocks s)(sha \<mapsto> (case hashlocks s sha of None \<Rightarrow> 0 | Some c \<Rightarrow> c) + 1),
        blobs := put_chunks sha 0 cs (blobs s)\<rparr>"
  have none: "slab_get sha (sizes s) = None" using new by (simp add: has_def)
  have okb: "slab_ok (blobs s)" using ok by (simp add: axon_ok_def)
  have f: "save s sha (cs, Some e) = (Inl e, ?s')" by (rule save_fail [OF lim none len])
  have lim': "reqBelowLimit ?s' = None"
    using lim reqBelowLimit_cong [of ?s' s] by simp
  have none': "slab_get sha (sizes ?s') = None" using none by simp
  have hl': "hashlocks ?s' sha \<noteq> Some 0" by simp
  have second: "\<exists>s''. save ?s' sha (cs', None) = (Inr (sum_list (map length cs')), s'') \<and>
           has s'' sha \<and> size_axon s'' sha = Some (sum_list (map length cs')) \<and>
           file_count s'' = file_count s + 1 \<and>
           size_bytes s'' = size_bytes s + int (sum_list (map length cs')) \<and>
           axonseqn s'' = axonseqn s @ [(sha, sum_list (map length cs'))] \<and>
           (length cs \<le> length cs' \<and> chunks_within s sha (length cs') \<longrightarrow>
              get s'' sha = Inr cs')"
    if len': "length cs' \<le> 2 ^ 64" and tot: "sum_list (map length cs') < 2 ^ 64"
  proof -
    let ?t = "sum_list (map length cs')"
    let ?s'' = "?s'\<lparr>blobs := put_chunks sha 0 cs' (blobs ?s'),
        axonhist := axonhist ?s' @ [(now ?s', sha, ?t)],
        axonseqn := axonseqn ?s' @ [(sha, ?t)],
        file_count := file_count ?s' + 1,
        size_bytes := size_bytes ?s' + int ?t,
        sizes := slab_put sha (be_bytes 8 ?t) (sizes ?s')\<rparr>"
    have sv: "save ?s' sha (cs', None) = (Inr ?t, ?s'')"
      by (rule save_new [OF lim' none' len' tot hl'])
    have idx: "slab_get sha (sizes ?s'') = Some (be_bytes 8 ?t)"
      by (simp add: slab_get_def map_of_slab_put)
    have g: "get ?s'' sha = Inr cs'"
      if le: "length cs \<le> length cs'" and w: "chunks_within s sha (length cs')"
    proof -
      have okb': "slab_ok (blobs ?s')" using okb by (simp add: slab_ok_put_chunks)
      have len0: "0 + length cs \<le> 2 ^ 64" using len by simp
      have "chunks_within ?s' sha (length cs')"
        unfolding chunks_within_def
      proof
        fix kv assume kv: "kv \<in> set (scanByPref sha (blobs ?s'))"
        obtain k v where eq: "kv = (k, v)" by (cases kv)
        have mem: "(k, v) \<in> set (put_chunks sha 0 cs (blobs s))" and pre: "prefix sha k"
          using kv by (simp_all add: eq scanByPref_def)
        from set_put_chunks_subset [OF okb len0 mem]
        show "\<exists>j<length cs'. fst kv = sha @ be_bytes 8 j"
        proof
          assume "(k, v) \<in> set (blobs s)"
          then have "(k, v) \<in> set (scanByPref sha (blobs s))"
            using pre by (simp add: scanByPref_def)
          then show ?thesis using w by (fastforce simp: chunks_within_def eq)
        next
          assume "(k, v) \<in> set (chunk_entries sha 0 cs)"
          from chunk_entries_key [OF this]
          obtain j where "j < length cs" "k = sha @ be_bytes 8 j" by auto
          then have "j < length cs' \<and> fst kv = sha @ be_bytes 8 j" using le by (simp add: eq)
          then show ?thesis by blast
        qed
      qed
      from get_after_put_chunks [OF okb' len' this]
      show ?thesis using idx by (simp add: get_def has_def)
    qed
    show ?thesis
      using sv idx tot g by (auto simp: has_def size_axon_def from_bytes_be_bytes_8)
  qed
  have first: "sizes ?s' = sizes s \<and> axonseqn ?s' = axonseqn s \<and> axonhist ?s' = axonhist s \<and>
     file_count ?s' = file_count s \<and> size_bytes ?s' = size_bytes s \<and> \<not> has ?s' sha \<and>
     blobs ?s' = put_chunks sha 0 cs (blobs s)"
    using new by (simp add: has_def)
  show ?thesis
    using f first second by blast
qed

theorem partial_save_atomic_witness:
  "axon_ok (axon_anit None None 0) \<and> reqBelowLimit (axon_anit None None 0) = None \<and>
   \<not> has (axon_anit None None 0) [7] \<and>
   fst (save (axon_anit None None 0) [7] ([[1, 2]], Some CancelledError)) = Inl CancelledError \<and>
   \<not> has (snd (save (axon_anit None None 0) [7] ([[1, 2]], Some CancelledError))) [7] \<and>
   file_count (snd (save (axon_anit None None 0) [7] ([[1, 2]], Some CancelledError))) = 0 \<and>
   size_bytes (snd (save (axon_anit None None 0) [7] ([[1, 2]], Some CancelledError))) = 0 \<and>
   sizes (snd (save (axon_anit None None 0) [7] ([[1, 2]], Some CancelledError))) = [] \<and>
   axonseqn (snd (save (axon_anit None None 0) [7] ([[1, 2]], Some CancelledError))) = [] \<and>
   fst (save (snd (save (axon_anit None None 0) [7] ([[1, 2]], Some CancelledError)))
          [7] ([[1, 2], [3]], None)) = Inr 3 \<and>
   has (snd (save (snd (save (axon_anit None None 0) [7] ([[1, 2]], Some CancelledError)))
          [7] ([[1, 2], [3]], None))) [7] \<and>
   get (snd (save (snd (save (axon_anit None None 0) [7] ([[1, 2]], Some CancelledError)))
          [7] ([[1, 2], [3]], None))) [7] = Inr [[1, 2], [3]]"
proof -
  let ?s0 = "axon_anit None None 0"
  have lim: "reqBelowLimit ?s0 = None" by (simp add: reqBelowLimit_def)
  have new: "\<not> has ?s0 [7]" by simp
  have len: "length [[1, 2 :: byte]] \<le> 2 ^ 64" by simp
  have w: "chunks_within ?s0 [7] (length [[1, 2], [3 :: byte]])"
    by (simp add: chunks_within_def scanByPref_def)
  from partial_save_atomic [OF axon_ok_anit lim new len,
      where cs' = "[[1, 2], [3]]" and e = CancelledError]
  obtain s' where f: "save ?s0 [7] ([[1, 2]], Some CancelledError) = (Inl CancelledError, s')"
    and u: "sizes s' = sizes ?s0" "axonseqn s' = axonseqn ?s0" "file_count s' = file_count ?s0"
      "size_bytes s' = size_bytes ?s0" "\<not> has s' [7]"
    and nx: "length [[1, 2], [3 :: byte]] \<le> 2 ^ 64 \<and>
        sum_list (map length [[1, 2], [3 :: byte]]) < 2 ^ 64 \<longrightarrow>
        (\<exists>s''. save s' [7] ([[1, 2], [3]], None) = (Inr (sum_list (map length [[1, 2], [3 :: byte]])), s'') \<and>
           has s'' [7] \<and>
           (length [[1, 2 :: byte]] \<le> length [[1, 2], [3 :: byte]] \<and>
            chunks_within ?s0 [7] (length [[1, 2], [3 :: byte]]) \<longrightarrow>
              get s'' [7] = Inr [[1, 2], [3]]))"
    by blast
  from nx w obtain s'' where s: "save s' [7] ([[1, 2], [3]], None) = (Inr 3, s'')"
    and h: "has s'' [7]" and g: "get s'' [7] = Inr [[1, 2], [3]]"
    by auto
  show ?thesis
    using f u s h g lim new axon_ok_anit by simp
qed

lemma saveFileGenr_loop_Inl:
  "saveFileGenr_loop sha fin i sz cs db = (Inl e, db') \<Longrightarrow> e = OverflowError \<or> fin = Some e"
proof (induction cs arbitrary: i sz db)
  case Nil
  then show ?case by (simp split: option.splits)
next
  case (Cons c cs)
  show ?case
  proof (cases "i < 2 ^ 64")
    case True
    then show ?thesis using Cons.prems Cons.IH by (simp add: to_bytes_8)
  next
    case False
    then show ?thesis using Cons.prems by (simp add: to_bytes_8_overflow)
  qed
qed

lemma save_HitLimit_only_at_limit:
  assumes sv: "save s sha g = (Inl HitLimit, s')" and prod: "snd g \<noteq> Some HitLimit"
  shows "reqBelowLimit s \<noteq> None"
proof
  assume lim: "reqBelowLimit s = None"
  obtain r db' where loop: "saveFileGenr_loop sha (snd g) 0 0 (fst g) (blobs s) = (r, db')"
    by (cases "saveFileGenr_loop sha (snd g) 0 0 (fst g) (blobs s)")
  show False
  proof (cases r)
    case (Inl e)
    from saveFileGenr_loop_Inl [OF loop [unfolded Inl]] prod
    have "e \<noteq> HitLimit" by auto
    then show False
      using sv lim loop Inl
      by (auto simp: save_def holdHashLock_def saveFileGenr_def Let_def
          split: option.splits if_splits)
  next
    case (Inr t)
    then show False
      using sv lim loop
      by (auto simp: save_def holdHashLock_def saveFileGenr_def Let_def to_bytes_def
          split: option.splits if_splits)
  qed
qed

text \<open>
  C2, as the code has it. \<open>save\<close> takes the capacity check first, before the hash lock and
  the look-up of the digest: whenever a configured limit has been reached
  (\<open>max:bytes \<le> size:bytes\<close> or \<open>max:count \<le> file:count\<close>) it raises \<open>HitLimit\<close> and leaves the
  store as it is, also for a digest that is present. When no limit has been reached and
  the digest is present, \<open>save\<close> returns the stored size and leaves the store as it is.
  \<open>HitLimit\<close> is raised only when a limit has been reached: a \<open>save\<close> that raises it
  while its producer did not found a limit reached, and changed nothing.
\<close>

theorem save_limit_then_present:
  assumes "axon_ok s"
  shows "((reqBelowLimit s \<noteq> None) =
      ((\<exists>mb. maxbytes s = Some mb \<and> mb \<le> size_bytes s) \<or>
       (\<exists>mc. maxcount s = Some mc \<and> mc \<le> file_count s))) \<and>
     (reqBelowLimit s \<noteq> None \<longrightarrow> save s sha g = (Inl HitLimit, s)) \<and>
     (reqBelowLimit s = None \<and> has s sha \<longrightarrow>
        save s sha g = (Inr (the (size_axon s sha)), s)) \<and>
     (save s sha g = (Inl HitLimit, s') \<and> snd g \<noteq> Some HitLimit \<longrightarrow>
        reqBelowLimit s \<noteq> None \<and> s' = s)"
proof -
  have hl: "hashlocks s sha \<noteq> Some 0" using assms by (simp add: axon_ok_def)
  have a: "(reqBelowLimit s \<noteq> None) =
      ((\<exists>mb. maxbytes s = Some mb \<and> mb \<le> size_bytes s) \<or>
       (\<exists>mc. maxcount s = Some mc \<and> mc \<le> file_count s))"
    by (auto simp: reqBelowLimit_def split: option.splits)
  have b: "reqBelowLimit s \<noteq> None \<longrightarrow> save s sha g = (Inl HitLimit, s)"
    using save_limit by blast
  have c: "reqBelowLimit s = None \<and> has s sha \<longrightarrow>
        save s sha g = (Inr (the (size_axon s sha)), s)"
  proof
    assume h: "reqBelowLimit s = None \<and> has s sha"
    then obtain byts where g: "slab_get sha (sizes s) = Some byts" by (auto simp: has_def)
    from h save_present [OF _ g hl] show "save s sha g = (Inr (the (size_axon s sha)), s)"
      by (simp add: size_axon_def g)
  qed
  have d: "save s sha g = (Inl HitLimit, s') \<and> snd g \<noteq> Some HitLimit \<longrightarrow>
        reqBelowLimit s \<noteq> None \<and> s' = s"
  proof
    assume h: "save s sha g = (Inl HitLimit, s') \<and> snd g \<noteq> Some HitLimit"
    then have lim: "reqBelowLimit s \<noteq> None"
      using save_HitLimit_only_at_limit by blast
    then have "save s sha g = (Inl HitLimit, s)" using b by blast
    then show "reqBelowLimit s \<noteq> None \<and> s' = s" using h lim by simp
  qed
  show ?thesis using a b c d by blast
qed

theorem save_limit_then_present_witness:
  "axon_ok ex_abc \<and> maxcount ex_abc = Some 1 \<and> file_count ex_abc = 1 \<and>
   reqBelowLimit ex_abc \<noteq> None \<and>
   save ex_abc (toy_hash [97, 98, 99]) ([[97, 98, 99]], None) = (Inl HitLimit, ex_abc) \<and>
   axon_ok ex_zero \<and> reqBelowLimit ex_zero = None \<and> has ex_zero (toy_hash []) \<and>
   save ex_zero (toy_hash []) ([], None) = (Inr 0, ex_zero)"
proof -
  have l0: "reqBelowLimit ex_zero = None" by (simp add: ex_zero_eq reqBelowLimit_def)
  have h0: "has ex_zero (toy_hash [])" by (simp add: ex_zero_eq has_def slab_get_def)
  have z0: "size_axon ex_zero (toy_hash []) = Some 0"
    by (simp add: ex_zero_eq size_axon_def slab_get_def from_bytes_be_bytes_8)
  have m: "maxcount ex_abc = Some 1" "file_count ex_abc = 1" by (simp_all add: ex_abc_eq)
  show ?thesis
    using save_limit_then_present [OF axon_ok_ex_abc, where sha = "toy_hash [97, 98, 99]"
        and g = "([[97, 98, 99]], None)" and s' = ex_abc]
      save_limit_then_present [OF axon_ok_ex_zero, where sha = "toy_hash []"
        and g = "([], None)" and s' = ex_zero]
      axon_ok_ex_abc axon_ok_ex_zero l0 h0 z0 m reqBelowLimit_ex_abc
    by simp
qed

text \<open>
  C2 as stated fails: in the store limited to one file that holds \<^verbatim>\<open>b"abc"\<close>, the digest
  is present with size 3, yet \<open>save\<close> for it raises \<open>HitLimit\<close>.
\<close>

theorem save_present_at_limit_counterexample:
  "has ex_abc (toy_hash [97, 98, 99]) \<and>
   size_axon ex_abc (toy_hash [97, 98, 99]) = Some 3 \<and>
   save ex_abc (toy_hash [97, 98, 99]) ([[97, 98, 99]], None) = (Inl HitLimit, ex_abc) \<and>
   fst (save ex_abc (toy_hash [97, 98, 99]) ([[97, 98, 99]], None)) \<noteq> Inr 3"
proof -
  have sz: "size_axon ex_abc (toy_hash [97, 98, 99]) = Some 3"
    by (simp add: ex_abc_eq size_axon_def slab_get_def from_bytes_be_bytes_8)
  have sv: "save ex_abc (toy_hash [97, 98, 99]) ([[97, 98, 99]], None) = (Inl HitLimit, ex_abc)"
    by (rule save_limit [OF reqBelowLimit_ex_abc])
  show ?thesis using has_ex_abc sz sv by simp
qed

text \<open>
  C5. The registry entry is released when the guarded body returns, not when it raises:
  \<^verbatim>\<open>holdHashLock\<close> has no \<^verbatim>\<open>try/finally\<close>, so the decrement after the \<^verbatim>\<open>yield\<close> is skipped
  on an exception. In an empty store, a \<open>save\<close> whose producer is cancelled after one chunk
  leaves the entry of the digest in the registry with count 1, while a \<open>save\<close> that
  returns leaves no entry.
\<close>

theorem holdHashLock_leaks_on_raise:
  "hashlocks (axon_anit None None 0) [7] = None \<and>
   fst (save (axon_anit None None 0) [7] ([[1, 2]], Some CancelledError)) = Inl CancelledError \<and>
   hashlocks (snd (save (axon_anit None None 0) [7] ([[1, 2]], Some CancelledError))) [7] = Some 1 \<and>
   fst (save (axon_anit None None 0) [7] ([[1, 2]], None)) = Inr 2 \<and>
   hashlocks (snd (save (axon_anit None None 0) [7] ([[1, 2]], None))) [7] = None"
proof -
  let ?s0 = "axon_anit None None 0"
  have lim: "reqBelowLimit ?s0 = None" by (simp add: reqBelowLimit_def)
  have none: "slab_get [7] (sizes ?s0) = None" by (simp add: slab_get_def)
  have len: "length [[1, 2 :: byte]] \<le> 2 ^ 64" by simp
  have tot: "sum_list (map length [[1, 2 :: byte]]) < 2 ^ 64" by simp
  have hl: "hashlocks ?s0 [7] \<noteq> Some 0" by simp
  show ?thesis
    by (simp add: save_fail [OF lim none len] save_new [OF lim none len tot hl])
qed

lemma zip_upt_nth: "zip [0..<length xs] xs = map (\<lambda>i. (i, xs ! i)) [0..<length xs]"
  by (rule nth_equalityI) simp_all

lemma seqn_iter_eq:
  "seqn_iter offs xs = map (\<lambda>i. (i, xs ! i)) [offs..<length xs]"
  by (simp add: seqn_iter_def zip_upt_nth drop_map)

lemma hashes_offsets_eq:
  "map fst (hashes s offs) =
     filter (\<lambda>i. slab_has (fst (axonseqn s ! i)) (sizes s)) [offs..<length (axonseqn s)]"
  by (simp add: hashes_def seqn_iter_eq filter_map comp_def)

text \<open>
  C7, as the code has it. The offsets yielded by \<open>hashes(offs)\<close> are strictly increasing;
  they are the offsets from \<open>offs\<close> on of exactly those sequence entries whose digest is in
  the size-index. So \<open>hashes(0)\<close> yields \<open>0, 1, 2, \<dots>\<close> without gaps when every sequenced
  digest is still present, and skips the offsets of deleted blobs otherwise.
\<close>

theorem hashes_offsets:
  "sorted_wrt (<) (map fst (hashes s offs)) \<and>
   map fst (hashes s offs) =
     filter (\<lambda>i. slab_has (fst (axonseqn s ! i)) (sizes s)) [offs..<length (axonseqn s)] \<and>
   ((\<forall>item \<in> set (axonseqn s). slab_has (fst item) (sizes s)) \<longrightarrow>
      map fst (hashes s 0) = [0..<length (axonseqn s)])"
proof -
  have "sorted_wrt (<) [offs..<length (axonseqn s)]" by (simp add: sorted_wrt_upt)
  then have a: "sorted_wrt (<) (map fst (hashes s offs))"
    unfolding hashes_offsets_eq by (rule sorted_wrt_filter)
  have b: "(\<forall>item \<in> set (axonseqn s). slab_has (fst item) (sizes s)) \<longrightarrow>
      map fst (hashes s 0) = [0..<length (axonseqn s)]"
    unfolding hashes_offsets_eq by (auto simp: filter_id_conv)
  show ?thesis using a b hashes_offsets_eq by blast
qed

theorem hashes_offsets_witness:
  "axonseqn ex_abc = [(toy_hash [97, 98, 99], 3)] \<and>
   slab_has (toy_hash [97, 98, 99]) (sizes ex_abc) \<and>
   map fst (hashes ex_abc 0) = [0] \<and>
   hashes ex_abc 0 = [(0, toy_hash [97, 98, 99], 3)] \<and>
   sorted_wrt (<) (map fst (hashes ex_deleted 0))"
proof -
  have p: "\<forall>item \<in> set (axonseqn ex_abc). slab_has (fst item) (sizes ex_abc)"
    by (simp add: ex_abc_eq slab_has_def)
  have h: "hashes ex_abc 0 = [(0, toy_hash [97, 98, 99], 3)]"
    by (simp add: ex_abc_eq hashes_def seqn_iter_def slab_has_def)
  from hashes_offsets [of ex_abc 0] p
  have a: "map fst (hashes ex_abc 0) = [0..<length (axonseqn ex_abc)]" by blast
  have n: "[0..<length (axonseqn ex_abc)] = [0]" by (simp add: ex_abc_eq)
  from hashes_offsets [of ex_deleted 0]
  have b: "sorted_wrt (<) (map fst (hashes ex_deleted 0))" by blast
  have q: "axonseqn ex_abc = [(toy_hash [97, 98, 99], 3)]"
    "slab_has (toy_hash [97, 98, 99]) (sizes ex_abc)"
    by (simp_all add: ex_abc_eq slab_has_def)
  show ?thesis
    using q h b a [unfolded n] by blast
qed

text \<open>
  C7 as stated fails: after two blobs were put and the first was deleted, \<open>hashes(0)\<close>
  yields the single offset 1, which is not dense from 0.
\<close>

theorem hashes_not_dense_counterexample:
  "hashes ex_deleted 0 = [(1, toy_hash [2], 1)] \<and>
   map fst (hashes ex_deleted 0) \<noteq> [0..<length (hashes ex_deleted 0)]"
proof -
  have h: "hashes ex_deleted 0 = [(1, toy_hash [2], 1)]"
    by (simp add: ex_deleted_eq hashes_def seqn_iter_def slab_has_def toy_hash_1 toy_hash_2
        upt_rec [of 0] upt_rec [of 1])
  show ?thesis by (simp add: h)
qed

lemma wget_upload:
  "foldl UpLoad_write UpLoad_anit chunks =
     \<lparr>up_fd = concat chunks, up_size = length (concat chunks), up_sha256 = concat chunks,
      up_isfini = False\<rparr>"
  by (simp add: foldl_UpLoad_write UpLoad_anit_def)

lemma wget_try_raises:
  "wget_try hf s (RequestRaises e) = (Inl e, s)"
  "wget_try hf s (Response url code headers chunks (Some e)) = (Inl e, s)"
  by (simp_all add: wget_try_def Let_def)

lemma wget_try_saved:
  assumes ok: "axon_ok s" and len: "length (concat chunks) < 2 ^ 64"
    and acc: "has s (h_sha256 hf (concat chunks)) \<or> reqBelowLimit s = None"
  shows "\<exists>s'. wget_try hf s (Response url code headers chunks None) =
       (Inr (InfoOk url code headers (length (concat chunks))
              [(''md5'', ehex (h_md5 hf (concat chunks))),
               (''sha1'', ehex (h_sha1 hf (concat chunks))),
               (''sha256'', ehex (h_sha256 hf (concat chunks))),
               (''sha512'', ehex (h_sha512 hf (concat chunks)))]), s') \<and>
     has s' (h_sha256 hf (concat chunks))"
proof (cases "has s (h_sha256 hf (concat chunks))")
  case True
  then show ?thesis
    by (simp add: wget_try_def wget_upload UpLoad_save_present foldl_hashset_update
        hashset_digests_def Let_def)
next
  case False
  let ?u = "\<lparr>up_fd = concat chunks, up_size = length (concat chunks),
             up_sha256 = concat chunks, up_isfini = False\<rparr>"
  have lim: "reqBelowLimit s = None" using acc False by simp
  have hl: "hashlocks s (h_sha256 hf (up_sha256 ?u)) \<noteq> Some 0"
    using ok by (simp add: axon_ok_def)
  have new: "\<not> has s (h_sha256 hf (up_sha256 ?u))" using False by simp
  have live: "\<not> up_isfini ?u" by simp
  have len': "length (up_fd ?u) < 2 ^ 64" using len by simp
  show ?thesis
    by (simp add: wget_try_def wget_upload foldl_hashset_update hashset_digests_def Let_def
        UpLoad_save_new [where H = "h_sha256 hf" and u = ?u, OF new lim live len' hl]
        has_def slab_get_def map_of_slab_put)
qed

lemma wget_try_limit:
  assumes "\<not> has s (h_sha256 hf (concat chunks))" "reqBelowLimit s \<noteq> None"
  shows "wget_try hf s (Response url code headers chunks None) = (Inl HitLimit, s)"
proof -
  obtain x where "reqBelowLimit s = Some x" using assms(2) by auto
  then show ?thesis
    using assms(1) UpLoad_save_limit [where H = "h_sha256 hf" and s = s
        and u = "foldl UpLoad_write UpLoad_anit chunks" and e = x]
    by (simp add: wget_try_def wget_upload Let_def)
qed

text \<open>
  C9, as the code has it. In a well-formed store: when the response arrives, its body is
  read to the end and the upload is saved (the body's digest is present, or no limit has
  been reached; the body is shorter than \<open>2^64\<close> bytes), \<open>wget\<close> returns a dictionary with
  \<open>ok\<close> true, the URL, the status code whatever it is, the headers, the size of the body and
  the hexadecimal MD5, SHA-1, SHA-256 and SHA-512 digests of the body. When any exception
  other than \<open>CancelledError\<close> is raised inside the request block, by the transport or by
  the save (\<open>HitLimit\<close> at a reached limit), \<open>wget\<close> returns \<open>ok\<close> false with its message and
  the store is unchanged. \<open>CancelledError\<close> is raised again.
\<close>

theorem wget_result:
  assumes ok: "axon_ok s"
  shows "(length (concat chunks) < 2 ^ 64 \<and>
      (has s (h_sha256 hf (concat chunks)) \<or> reqBelowLimit s = None) \<longrightarrow>
        (\<exists>s' info. wget hf mesg_of s (Response url code headers chunks None) = (Inr info, s') \<and>
           ok info \<and>
           info = InfoOk url code headers (length (concat chunks))
              [(''md5'', ehex (h_md5 hf (concat chunks))),
               (''sha1'', ehex (h_sha1 hf (concat chunks))),
               (''sha256'', ehex (h_sha256 hf (concat chunks))),
               (''sha512'', ehex (h_sha512 hf (concat chunks)))] \<and>
           has s' (h_sha256 hf (concat chunks)))) \<and>
     (\<not> has s (h_sha256 hf (concat chunks)) \<and> reqBelowLimit s \<noteq> None \<longrightarrow>
        wget hf mesg_of s (Response url code headers chunks None) =
          (Inr (InfoErr (mesg_of HitLimit)), s)) \<and>
     (e \<noteq> CancelledError \<longrightarrow>
        wget hf mesg_of s (RequestRaises e) = (Inr (InfoErr (mesg_of e)), s) \<and>
        wget hf mesg_of s (Response url code headers chunks (Some e)) =
          (Inr (InfoErr (mesg_of e)), s)) \<and>
     wget hf mesg_of s (RequestRaises CancelledError) = (Inl CancelledError, s) \<and>
     wget hf mesg_of s (Response url code headers chunks (Some CancelledError)) =
       (Inl CancelledError, s)"
proof -
  have a: "length (concat chunks) < 2 ^ 64 \<and>
      (has s (h_sha256 hf (concat chunks)) \<or> reqBelowLimit s = None) \<longrightarrow>
        (\<exists>s' info. wget hf mesg_of s (Response url code headers chunks None) = (Inr info, s') \<and>
           ok info \<and>
           info = InfoOk url code headers (length (concat chunks))
              [(''md5'', ehex (h_md5 hf (concat chunks))),
               (''sha1'', ehex (h_sha1 hf (concat chunks))),
               (''sha256'', ehex (h_sha256 hf (concat chunks))),
               (''sha512'', ehex (h_sha512 hf (concat chunks)))] \<and>
           has s' (h_sha256 hf (concat chunks)))"
  proof
    assume h: "length (concat chunks) < 2 ^ 64 \<and>
      (has s (h_sha256 hf (concat chunks)) \<or> reqBelowLimit s = None)"
    from wget_try_saved [OF ok conjunct1 [OF h] conjunct2 [OF h], of url code headers]
    obtain s' where "wget_try hf s (Response url code headers chunks None) =
       (Inr (InfoOk url code headers (length (concat chunks))
              [(''md5'', ehex (h_md5 hf (concat chunks))),
               (''sha1'', ehex (h_sha1 hf (concat chunks))),
               (''sha256'', ehex (h_sha256 hf (concat chunks))),
               (''sha512'', ehex (h_sha512 hf (concat chunks)))]), s')"
      and "has s' (h_sha256 hf (concat chunks))"
      by (elim exE conjE)
    then show "\<exists>s' info. wget hf mesg_of s (Response url code headers chunks None) = (Inr info, s') \<and>
           ok info \<and>
           info = InfoOk url code headers (length (concat chunks))
              [(''md5'', ehex (h_md5 hf (concat chunks))),
               (''sha1'', ehex (h_sha1 hf (concat chunks))),
               (''sha256'', ehex (h_sha256 hf (concat chunks))),
               (''sha512'', ehex (h_sha512 hf (concat chunks)))] \<and>
           has s' (h_sha256 hf (concat chunks))"
      by (simp add: wget_def)
  qed
  have b: "\<not> has s (h_sha256 hf (concat chunks)) \<and> reqBelowLimit s \<noteq> None \<longrightarrow>
        wget hf mesg_of s (Response url code headers chunks None) =
          (Inr (InfoErr (mesg_of HitLimit)), s)"
    by (simp add: wget_def wget_try_limit)
  have c: "e \<noteq> CancelledError \<longrightarrow>
        wget hf mesg_of s (RequestRaises e) = (Inr (InfoErr (mesg_of e)), s) \<and>
        wget hf mesg_of s (Response url code headers chunks (Some e)) =
          (Inr (InfoErr (mesg_of e)), s)"
    by (simp add: wget_def wget_try_raises)
  have d: "wget hf mesg_of s (RequestRaises CancelledError) = (Inl CancelledError, s) \<and>
     wget hf mesg_of s (Response url code headers chunks (Some CancelledError)) =
       (Inl CancelledError, s)"
    by (simp add: wget_def wget_try_raises)
  show ?thesis using a b c d by blast
qed

theorem wget_result_witness:
  "axon_ok (axon_anit None None 0) \<and> reqBelowLimit (axon_anit None None 0) = None \<and>
   fst (wget toy_hashfuns toy_mesg (axon_anit None None 0)
          (Response ''http://host/missing'' 404 [] [[1], [2]] None)) =
     Inr (InfoOk ''http://host/missing'' 404 [] 2
           [(''md5'', ehex (toy_hash [1, 2])), (''sha1'', ehex (toy_hash [1, 2])),
            (''sha256'', ehex (toy_hash [1, 2])), (''sha512'', ehex (toy_hash [1, 2]))]) \<and>
   has (snd (wget toy_hashfuns toy_mesg (axon_anit None None 0)
          (Response ''http://host/missing'' 404 [] [[1], [2]] None))) (toy_hash [1, 2]) \<and>
   axon_ok ex_abc \<and> \<not> has ex_abc (toy_hash [1]) \<and> reqBelowLimit ex_abc \<noteq> None \<and>
   wget toy_hashfuns toy_mesg ex_abc (Response ''http://host/a'' 200 [] [[1]] None) =
     (Inr (InfoErr (toy_mesg HitLimit)), ex_abc) \<and>
   wget toy_hashfuns toy_mesg ex_abc (RequestRaises (OtherError ''timeout'')) =
     (Inr (InfoErr (toy_mesg (OtherError ''timeout''))), ex_abc) \<and>
   wget toy_hashfuns toy_mesg ex_abc (RequestRaises CancelledError) =
     (Inl CancelledError, ex_abc)"
proof -
  let ?s0 = "axon_anit None None 0"
  have lim: "reqBelowLimit ?s0 = None" by (simp add: reqBelowLimit_def)
  have sha: "h_sha256 toy_hashfuns = toy_hash" "h_md5 toy_hashfuns = toy_hash"
    "h_sha1 toy_hashfuns = toy_hash" "h_sha512 toy_hashfuns = toy_hash"
    by (simp_all add: toy_hashfuns_def)
  have new: "\<not> has ex_abc (toy_hash [1])"
    by (simp add: ex_abc_eq has_def slab_get_def toy_hash_def)
  have lim1: "reqBelowLimit ex_abc \<noteq> None" by (simp add: reqBelowLimit_ex_abc)
  from wget_result [OF axon_ok_anit [of None None 0], where chunks = "[[1], [2]]"
      and hf = toy_hashfuns and mesg_of = toy_mesg and url = "''http://host/missing''"
      and code = 404 and headers = "[]" and e = CancelledError] lim
  obtain s' where w: "wget toy_hashfuns toy_mesg ?s0
          (Response ''http://host/missing'' 404 [] [[1], [2]] None) =
     (Inr (InfoOk ''http://host/missing'' 404 [] 2
           [(''md5'', ehex (toy_hash [1, 2])), (''sha1'', ehex (toy_hash [1, 2])),
            (''sha256'', ehex (toy_hash [1, 2])), (''sha512'', ehex (toy_hash [1, 2]))]), s')"
    and h: "has s' (toy_hash [1, 2])"
    by (auto simp: sha)
  from wget_result [OF axon_ok_ex_abc, where chunks = "[[1]]"
      and hf = toy_hashfuns and mesg_of = toy_mesg and url = "''http://host/a''"
      and code = 200 and headers = "[]" and e = "OtherError ''timeout''"] new lim1
  have r: "wget toy_hashfuns toy_mesg ex_abc (Response ''http://host/a'' 200 [] [[1]] None) =
     (Inr (InfoErr (toy_mesg HitLimit)), ex_abc) \<and>
   wget toy_hashfuns toy_mesg ex_abc (RequestRaises (OtherError ''timeout'')) =
     (Inr (InfoErr (toy_mesg (OtherError ''timeout''))), ex_abc) \<and>
   wget toy_hashfuns toy_mesg ex_abc (RequestRaises CancelledError) =
     (Inl CancelledError, ex_abc)"
    by (simp add: sha)
  show ?thesis
    using w h r lim new lim1 axon_ok_anit axon_ok_ex_abc by simp
qed

text \<open>
  C9 as stated fails: with the store limited to one file and holding one, the exchange
  completes with status 200 and a body that is not stored yet; the save raises \<open>HitLimit\<close>
  and \<open>wget\<close> returns \<open>ok\<close> false.
\<close>

theorem wget_ok_false_at_limit_counterexample:
  "wget toy_hashfuns toy_mesg ex_abc (Response ''http://host/a'' 200 [] [[1]] None) =
     (Inr (InfoErr ''Axon is at file:count limit''), ex_abc) \<and>
   \<not> ok (InfoErr ''Axon is at file:count limit'')"
proof -
  have new: "\<not> has ex_abc (h_sha256 toy_hashfuns (concat [[1]]))"
    by (simp add: ex_abc_eq has_def slab_get_def toy_hash_def toy_hashfuns_def)
  have lim: "reqBelowLimit ex_abc \<noteq> None" by (simp add: reqBelowLimit_ex_abc)
  show ?thesis
    by (simp add: wget_def wget_try_limit [OF new lim])
qed

end
